theory Spec2Isabelle
  imports Main "HOL-Library.Word"
begin

unbundle bit_operations_syntax

section \<open>Data model of the VAN bus packet receiver\<close>

text \<open>
  The receiver of \<^verbatim>\<open>VanBusRx.cpp\<close> works on fixed-width unsigned integers; they are
  modelled as words of the same width, so that every shift and addition wraps as it does
  in the program. The fields \<^verbatim>\<open>size\<close> and \<^verbatim>\<open>slot\<close> are C++ \<^verbatim>\<open>int\<close>s that stay
  far from the limits of their type (a frame has at most \<^verbatim>\<open>VAN_MAX_PACKET_SIZE\<close> bytes);
  they are modelled as mathematical integers.
\<close>

type_synonym uint8_t = "8 word"
type_synonym uint16_t = "16 word"
type_synonym uint32_t = "32 word"

datatype PacketReadState_t =
  VAN_RX_VACANT | VAN_RX_SEARCHING | VAN_RX_LOADING | VAN_RX_WAITING_ACK | VAN_RX_DONE

datatype PacketReadResult_t =
  VAN_RX_PACKET_OK | VAN_RX_ERROR_NBITS | VAN_RX_ERROR_MANCHESTER | VAN_RX_ERROR_MAX_PACKET

datatype PacketAck_t = VAN_ACK | VAN_NO_ACK

text \<open>
  A packet descriptor. The field \<^verbatim>\<open>size\<close> of the program is called \<open>size'\<close> here
  (\<open>size\<close> is a constant of HOL). The array \<^verbatim>\<open>bytes\<close> is a list whose length is the
  capacity of the array.
\<close>

record TVanPacketRxDesc =
  bytes :: "uint8_t list"
  size' :: int
  state :: PacketReadState_t
  result :: PacketReadResult_t
  ack :: PacketAck_t
  seqNo :: uint32_t
  slot :: int

text \<open>
  The receive queue \<^verbatim>\<open>VanBusRx\<close>. The pointers \<^verbatim>\<open>_head\<close> and \<^verbatim>\<open>tail\<close> into the
  pool are indices; \<^verbatim>\<open>_overrun\<close> is \<open>overrun\<close>.
\<close>

record TVanPacketRxQueue =
  pool :: "TVanPacketRxDesc list"
  head :: nat
  tail :: nat
  overrun :: bool
  count :: uint32_t
  nCorrupt :: uint32_t
  nRepaired :: uint32_t
  lastMediaAccessAt :: uint32_t

text \<open>
  The state that the pin interrupt handler keeps between its invocations: the queue and
  the handler's \<^verbatim>\<open>static\<close> local variables.
\<close>

record IsrState =
  VanBusRx :: TVanPacketRxQueue
  prevPinLevelChangedTo :: int
  prev :: uint32_t
  jitter :: uint32_t
  atBit :: uint32_t
  readBits :: uint16_t

text \<open>
  The compile-time constants of the header \<^verbatim>\<open>VanBusRx.h\<close> that the source file uses
  are parameters of the model: the capacity of a descriptor's byte array and the ratio of
  the processor clock to the 80 MHz for which the thresholds were measured. The queue
  depth \<^verbatim>\<open>VAN_RX_QUEUE_SIZE\<close> is the length of the pool.
\<close>

record Config =
  VAN_MAX_PACKET_SIZE :: int
  CPU_F_FACTOR :: uint32_t

section \<open>CRC engine\<close>

definition VAN_CRC_POLYNOM :: uint16_t where
  "VAN_CRC_POLYNOM = 0x0F9D"

text \<open>One iteration of the inner loop over \<^verbatim>\<open>j\<close>: it consumes the top bit of \<^verbatim>\<open>byte\<close>.\<close>

definition crc_bit_step :: "uint16_t \<Rightarrow> uint8_t \<Rightarrow> uint16_t \<times> uint8_t" where
  "crc_bit_step crc16 byte =
     (let bit0 = crc16 AND 0x4000;
          bit1 = (if byte AND 0x80 \<noteq> 0 then bit0 XOR 0x4000 else bit0);
          byte1 = push_bit 1 byte;
          crc16a = push_bit 1 crc16;
          crc16b = (if bit1 \<noteq> 0 then crc16a XOR VAN_CRC_POLYNOM else crc16a)
      in (crc16b, byte1))"

text \<open>The inner loop, with the number of iterations still to run.\<close>

fun crc_bits :: "nat \<Rightarrow> uint16_t \<Rightarrow> uint8_t \<Rightarrow> uint16_t" where
  "crc_bits 0 crc16 byte = crc16"
| "crc_bits (Suc n) crc16 byte =
     (case crc_bit_step crc16 byte of (crc16b, byte1) \<Rightarrow> crc_bits n crc16b byte1)"

text \<open>The outer loop \<^verbatim>\<open>for (i = ...; i < lim; i++)\<close> over the bytes of the frame.\<close>

function crc_loop :: "uint8_t list \<Rightarrow> int \<Rightarrow> int \<Rightarrow> uint16_t \<Rightarrow> uint16_t" where
  "crc_loop bs i lim crc16 =
     (if i < lim then crc_loop bs (i + 1) lim (crc_bits 8 crc16 (bs ! nat i)) else crc16)"
  by pat_completeness auto
termination
  by (relation "measure (\<lambda>(bs, i, lim, crc16). nat (lim - i))") auto

declare crc_loop.simps [simp del]

text \<open>The function \<^verbatim>\<open>_crc\<close>.\<close>

definition crc :: "uint8_t list \<Rightarrow> int \<Rightarrow> uint16_t" where
  "crc bs sz = push_bit 1 (crc_loop bs 1 (sz - 2) 0x7FFF XOR 0x7FFF)"

definition Crc :: "TVanPacketRxDesc \<Rightarrow> uint16_t" where
  "Crc d = crc (bytes d) (size' d)"

definition CheckCrc :: "TVanPacketRxDesc \<Rightarrow> bool" where
  "CheckCrc d = (crc_loop (bytes d) 1 (size' d) 0x7FFF AND 0x7FFF = 0x19B7)"

text \<open>
  \<^verbatim>\<open>bytes[atByte] ^= mask\<close> with \<^verbatim>\<open>mask = 1 << atBit\<close>; the loop variable
  \<^verbatim>\<open>atBit\<close> is written \<open>atBit'\<close> (the interrupt handler has a static variable of the same
  name).
\<close>

definition flip_bit_at :: "TVanPacketRxDesc \<Rightarrow> int \<Rightarrow> nat \<Rightarrow> TVanPacketRxDesc" where
  "flip_bit_at d atByte atBit' =
     d\<lparr>bytes := (bytes d)[nat atByte := bytes d ! nat atByte XOR push_bit atBit' 1]\<rparr>"

text \<open>
  The two nested loops of \<^verbatim>\<open>CheckCrcAndRepair\<close>, from the position
  \<open>(atByte, atBit')\<close> on. The result is the return value, the descriptor and the queue
  (whose counter \<^verbatim>\<open>nRepaired\<close> the loop increments).
\<close>

function repair_loop ::
  "TVanPacketRxDesc \<Rightarrow> TVanPacketRxQueue \<Rightarrow> int \<Rightarrow> nat
     \<Rightarrow> bool \<times> TVanPacketRxDesc \<times> TVanPacketRxQueue" where
  "repair_loop d q atByte atBit' =
     (if atByte < size' d then
        (if atBit' < 8 then
           (let d1 = flip_bit_at d atByte atBit'
            in if CheckCrc d1 then (True, d1, q\<lparr>nRepaired := nRepaired q + 1\<rparr>)
               else repair_loop (flip_bit_at d1 atByte atBit') q atByte (atBit' + 1))
         else repair_loop d q (atByte + 1) 0)
      else (False, d, q))"
  by pat_completeness auto
termination
  by (relation "measures [\<lambda>(d, q, atByte, atBit'). nat (size' d - atByte),
                          \<lambda>(d, q, atByte, atBit'). 9 - atBit']")
     (auto simp: flip_bit_at_def)

declare repair_loop.simps [simp del]

definition CheckCrcAndRepair ::
  "TVanPacketRxDesc \<Rightarrow> TVanPacketRxQueue \<Rightarrow> bool \<times> TVanPacketRxDesc \<times> TVanPacketRxQueue" where
  "CheckCrcAndRepair d q =
     (if CheckCrc d then (True, d, q)
      else repair_loop d (q\<lparr>nCorrupt := nCorrupt q + 1\<rparr>) 0 0)"

subsection \<open>The CRC as the specification words it\<close>

text \<open>
  A register of 15 bits; for every input bit the register is shifted left by one and the
  polynomial is XOR-ed into it when the bit shifted out and the input bit disagree. The
  bits of a byte are taken most significant first.
\<close>

definition spec_crc_bit :: "15 word \<Rightarrow> bool \<Rightarrow> 15 word" where
  "spec_crc_bit r b = (if bit r 14 \<noteq> b then push_bit 1 r XOR 0x0F9D else push_bit 1 r)"

definition msb_first :: "uint8_t \<Rightarrow> bool list" where
  "msb_first byte = map (bit byte) [7, 6, 5, 4, 3, 2, 1, 0]"

definition spec_crc_run :: "15 word \<Rightarrow> bool list \<Rightarrow> 15 word" where
  "spec_crc_run r bs = foldl spec_crc_bit r bs"

definition spec_crc15 :: "uint8_t list \<Rightarrow> 15 word" where
  "spec_crc15 bs = spec_crc_run 0x7FFF (concat (map msb_first bs))"

text \<open>The bytes of a frame buffer from index \<open>lo\<close> up to, not including, index \<open>hi\<close>.\<close>

definition frame_slice :: "uint8_t list \<Rightarrow> int \<Rightarrow> int \<Rightarrow> uint8_t list" where
  "frame_slice bs lo hi = drop (nat lo) (take (nat hi) bs)"

text \<open>
  The trailing two bytes of the frame hold the value that \<^verbatim>\<open>Crc\<close> computes, high byte
  first (this is how \<^verbatim>\<open>DumpRaw\<close> prints the two next to each other).
\<close>

definition valid_crc_trailer :: "TVanPacketRxDesc \<Rightarrow> bool" where
  "valid_crc_trailer d =
     (3 \<le> size' d \<and> size' d \<le> int (length (bytes d)) \<and>
      bytes d ! nat (size' d - 2) = ucast (drop_bit 8 (Crc d)) \<and>
      bytes d ! nat (size' d - 1) = ucast (Crc d))"

section \<open>Packet accessors\<close>

text \<open>\<^verbatim>\<open>DataLen\<close>: the total size minus SOF, IDEN, COM and CRC + EOD.\<close>

definition DataLen :: "TVanPacketRxDesc \<Rightarrow> int" where
  "DataLen d = size' d - 5"

text \<open>
  The payload length that \<^verbatim>\<open>DumpRaw\<close> prints: the argument
  \<^verbatim>\<open>size - 5 < 0 ? 0 : size - 5\<close> of its first \<^verbatim>\<open>printf\<close>.
\<close>

definition DumpRaw_dataLen :: "TVanPacketRxDesc \<Rightarrow> int" where
  "DumpRaw_dataLen d = (if size' d - 5 < 0 then 0 else size' d - 5)"

section \<open>Bit timing\<close>

text \<open>
  The statement \<^verbatim>\<open>nCycles += jitter\<close>: the cycle count that the thresholds are compared
  with. The addition is one of \<^verbatim>\<open>uint32_t\<close> and wraps.
\<close>

definition effectiveCycles :: "uint32_t \<Rightarrow> uint32_t \<Rightarrow> uint32_t" where
  "effectiveCycles nCycles jit = nCycles + jit"

text \<open>
  \<^verbatim>\<open>nBitsFromCycles\<close>. The reference parameter \<^verbatim>\<open>jitter\<close> is passed in and returned:
  the result is the number of bits and the new value of \<^verbatim>\<open>jitter\<close>. The first
  argument is \<^verbatim>\<open>CPU_F_FACTOR\<close>.
\<close>

definition nBitsFromCycles :: "uint32_t \<Rightarrow> uint32_t \<Rightarrow> uint32_t \<Rightarrow> uint32_t \<times> uint32_t" where
  "nBitsFromCycles F nCycles0 jit0 =
     (let nCycles = effectiveCycles nCycles0 jit0;
          jit = 0
      in if nCycles < 1124 * F then
           (1, if nCycles > 800 * F then nCycles - 800 * F else jit)
         else if nCycles < 1744 * F then
           (2, if nCycles > 1380 * F then nCycles - 1380 * F else jit)
         else if nCycles < 2383 * F then
           (3, if nCycles > 2100 * F then nCycles - 2100 * F else jit)
         else if nCycles < 3045 * F then
           (4, if nCycles > 2655 * F then nCycles - 2655 * F else jit)
         else if nCycles < 3665 * F then
           (5, if nCycles > 3300 * F then nCycles - 3300 * F else jit)
         else (((nCycles + 300 * F) div 650) * F, jit))"

section \<open>The receive queue\<close>

text \<open>
  Modelled from the spec: the macro \<^verbatim>\<open>VAN_LOGICAL_LOW\<close> is defined in
  \<^verbatim>\<open>VanBusRx.h\<close>, which is not among the sources. It is the low level that the pin
  reads.
\<close>

definition VAN_LOGICAL_LOW :: int where
  "VAN_LOGICAL_LOW = 0"

text \<open>
  Modelled from the spec: the macro \<^verbatim>\<open>VAN_LOGICAL_HIGH\<close> is defined in
  \<^verbatim>\<open>VanBusRx.h\<close>, which is not among the sources. It is the high level that the pin
  reads.
\<close>

definition VAN_LOGICAL_HIGH :: int where
  "VAN_LOGICAL_HIGH = 1"

text \<open>
  Modelled from the spec: the macro \<^verbatim>\<open>VAN_BIT_RECESSIVE\<close> is defined in
  \<^verbatim>\<open>VanBusRx.h\<close>, which is not among the sources. The specification calls the
  dominant level the driven, low one and the recessive level the idle, high one.
\<close>

definition VAN_BIT_RECESSIVE :: int where
  "VAN_BIT_RECESSIVE = VAN_LOGICAL_HIGH"

text \<open>
  Modelled from the spec: the member function \<^verbatim>\<open>_AdvanceHead\<close> is defined in
  \<^verbatim>\<open>VanBusRx.h\<close>, which is not among the sources. The specification says that advancing
  the queue head marks the current slot DONE and promotes the next pool slot, wrapping
  modulo the capacity, to become the new producer target.
\<close>

definition AdvanceHead :: "TVanPacketRxQueue \<Rightarrow> TVanPacketRxQueue" where
  "AdvanceHead q =
     q\<lparr>pool := (pool q)[head q := (pool q ! head q)\<lparr>state := VAN_RX_DONE\<rparr>],
       head := (head q + 1) mod length (pool q)\<rparr>"

text \<open>
  Modelled from the spec: the member function \<^verbatim>\<open>Available\<close> is defined in
  \<^verbatim>\<open>VanBusRx.h\<close>, which is not among the sources. The specification says that it is
  true iff the slot at tail is DONE.
\<close>

definition Available :: "TVanPacketRxQueue \<Rightarrow> bool" where
  "Available q = (state (pool q ! tail q) = VAN_RX_DONE)"

text \<open>
  Modelled from the spec: the member function \<^verbatim>\<open>Init\<close> of a descriptor is defined in
  \<^verbatim>\<open>VanBusRx.h\<close>, which is not among the sources. The specification says that the
  consumer re-initializes the drained slot to VACANT.
\<close>

definition Init :: "TVanPacketRxDesc \<Rightarrow> TVanPacketRxDesc" where
  "Init d = d\<lparr>state := VAN_RX_VACANT\<rparr>"

text \<open>
  Modelled from the spec: the member function \<^verbatim>\<open>AdvanceTail\<close> is defined in
  \<^verbatim>\<open>VanBusRx.h\<close>, which is not among the sources. The specification says that the
  tail only advances forward, wrapping modulo the capacity.
\<close>

definition AdvanceTail :: "TVanPacketRxQueue \<Rightarrow> TVanPacketRxQueue" where
  "AdvanceTail q = q\<lparr>tail := (tail q + 1) mod length (pool q)\<rparr>"

text \<open>
  Modelled from the spec: the member function \<^verbatim>\<open>IsQueueOverrun\<close> is defined in
  \<^verbatim>\<open>VanBusRx.h\<close>, which is not among the sources. The specification speaks of
  querying the latched overrun flag.
\<close>

definition IsQueueOverrun :: "TVanPacketRxQueue \<Rightarrow> bool" where
  "IsQueueOverrun q = overrun q"

text \<open>
  Modelled from the spec: the member function \<^verbatim>\<open>ClearQueueOverrun\<close> is defined in
  \<^verbatim>\<open>VanBusRx.h\<close>, which is not among the sources. The specification speaks of
  clearing the latched overrun flag.
\<close>

definition ClearQueueOverrun :: "TVanPacketRxQueue \<Rightarrow> TVanPacketRxQueue" where
  "ClearQueueOverrun q = q\<lparr>overrun := False\<rparr>"

text \<open>
  \<^verbatim>\<open>Receive\<close>. The caller's packet \<^verbatim>\<open>pkt\<close> is passed in and returned. The pointer
  \<^verbatim>\<open>isQueueOverrun\<close> is \<open>None\<close> when it is null and \<open>Some b\<close> when it points to a
  \<^verbatim>\<open>bool\<close> that holds \<open>b\<close>; it is returned with what the call stored there. The
  result is the return value, the packet, the pointer's target and the queue.
\<close>

definition Receive ::
  "TVanPacketRxDesc \<Rightarrow> bool option \<Rightarrow> TVanPacketRxQueue
     \<Rightarrow> bool \<times> TVanPacketRxDesc \<times> bool option \<times> TVanPacketRxQueue" where
  "Receive pkt isQueueOverrun q =
     (if \<not> Available q then (False, pkt, isQueueOverrun, q)
      else
        (let pkt1 = pool q ! tail q;
             isQueueOverrun1 = (case isQueueOverrun of
                                  None \<Rightarrow> None
                                | Some b \<Rightarrow> Some (IsQueueOverrun q));
             q1 = (case isQueueOverrun of
                     None \<Rightarrow> q
                   | Some b \<Rightarrow> ClearQueueOverrun q);
             q2 = q1\<lparr>pool := (pool q1)[tail q1 := Init (pool q1 ! tail q1)]\<rparr>;
             q3 = AdvanceTail q2
         in (True, pkt1, isQueueOverrun1, q3)))"

section \<open>The interrupt handlers\<close>

text \<open>The descriptor \<^verbatim>\<open>rxDesc = VanBusRx._head\<close> and an assignment through that pointer.\<close>

definition rxDesc :: "IsrState \<Rightarrow> TVanPacketRxDesc" where
  "rxDesc s = pool (VanBusRx s) ! head (VanBusRx s)"

definition onQueue :: "(TVanPacketRxQueue \<Rightarrow> TVanPacketRxQueue) \<Rightarrow> IsrState \<Rightarrow> IsrState" where
  "onQueue f s = s\<lparr>VanBusRx := f (VanBusRx s)\<rparr>"

definition onDesc :: "(TVanPacketRxDesc \<Rightarrow> TVanPacketRxDesc) \<Rightarrow> IsrState \<Rightarrow> IsrState" where
  "onDesc f s = onQueue (\<lambda>q. q\<lparr>pool := (pool q)[head q := f (pool q ! head q)]\<rparr>) s"

text \<open>
  \<^verbatim>\<open>WaitAckIsr\<close>, the handler of the acknowledge timeout. \<^verbatim>\<open>SetTxBitTimer\<close> only
  programs the hardware timer, which is outside the model.
\<close>

definition WaitAckIsr :: "IsrState \<Rightarrow> IsrState" where
  "WaitAckIsr s = onQueue AdvanceHead s"

text \<open>
  The part of \<^verbatim>\<open>RxPinChangeIsr\<close> after the test \<^verbatim>\<open>nBits > 9\<close>, in three
  steps. First the run of \<open>nBits0\<close> equal bits is shifted into \<^verbatim>\<open>readBits\<close>, one
  bit less when the run would end at bit 5.
\<close>

definition isr_shift_run :: "int \<Rightarrow> uint32_t \<Rightarrow> IsrState \<Rightarrow> IsrState" where
  "isr_shift_run pinLevelChangedTo nBits0 s0 =
     (let eat = (nBits0 > 1 \<and> atBit s0 + nBits0 = 5);
          nBits = (if eat then nBits0 - 1 else nBits0);
          s1 = (if eat then s0\<lparr>jitter := 500\<rparr> else s0);
          s2 = s1\<lparr>atBit := atBit s1 + nBits,
                 readBits := push_bit (unat nBits) (readBits s1)\<rparr>;
          pattern = (if pinLevelChangedTo = VAN_LOGICAL_LOW
                     then push_bit (unat nBits) 1 - 1 else 0)
      in s2\<lparr>readBits := readBits s2 OR pattern\<rparr>)"

text \<open>
  Then, in the body of \<^verbatim>\<open>if (atBit >= 10)\<close>, the unit of ten bits is taken out of
  \<^verbatim>\<open>readBits\<close>: \<^verbatim>\<open>atBit -= 10\<close> and \<^verbatim>\<open>currentByte = readBits >> atBit\<close>. The
  result is \<^verbatim>\<open>currentByte\<close> and the state.
\<close>

definition isr_take_unit :: "IsrState \<Rightarrow> uint16_t \<times> IsrState" where
  "isr_take_unit s3 =
     (let s4 = s3\<lparr>atBit := atBit s3 - 10\<rparr>
      in (drop_bit (unat (atBit s4)) (readBits s4), s4))"

text \<open>
  Last, the byte is unpacked from the unit and stored, and the end of data or a full
  buffer ends the frame. The argument \<open>st\<close> is the local variable \<^verbatim>\<open>state\<close>, read at
  the start of the handler. The calls that arm the timer for the acknowledge bit only
  program the hardware timer. A store \<^verbatim>\<open>bytes[size++]\<close> outside the array, which the
  program leaves undefined, changes nothing in the model but the size.
\<close>

definition isr_store_byte ::
  "Config \<Rightarrow> PacketReadState_t \<Rightarrow> uint16_t \<Rightarrow> IsrState \<Rightarrow> IsrState" where
  "isr_store_byte cfg st currentByte s4 =
     (let s5 = (if st = VAN_RX_SEARCHING
                then onDesc (\<lambda>d. d\<lparr>state := VAN_RX_LOADING\<rparr>) s4 else s4);
          s6 = s5\<lparr>readBits := readBits s5 AND (push_bit (unat (atBit s5)) 1 - 1)\<rparr>;
          readByte = ucast ((drop_bit 2 currentByte AND 0xF0)
                              OR (drop_bit 1 currentByte AND 0x0F));
          s7 = onDesc (\<lambda>d. d\<lparr>bytes := (bytes d)[nat (size' d) := readByte],
                               size' := size' d + 1\<rparr>) s6
      in if currentByte AND 0x003 = 0 then
           onDesc (\<lambda>d. d\<lparr>state := VAN_RX_WAITING_ACK\<rparr>) s7
         else if size' (rxDesc s7) \<ge> VAN_MAX_PACKET_SIZE cfg then
           onQueue AdvanceHead (onDesc (\<lambda>d. d\<lparr>result := VAN_RX_ERROR_MAX_PACKET\<rparr>) s7)
         else s7)"

text \<open>
  The three steps together. A first unit of a search that is not the start of frame
  \<open>0x03D\<close> returns the descriptor to VACANT.
\<close>

definition isr_decode ::
  "Config \<Rightarrow> int \<Rightarrow> uint32_t \<Rightarrow> PacketReadState_t \<Rightarrow> IsrState \<Rightarrow> IsrState" where
  "isr_decode cfg pinLevelChangedTo nBits0 st s0 =
     (let s3 = isr_shift_run pinLevelChangedTo nBits0 s0
      in if atBit s3 \<ge> 10 then
           (case isr_take_unit s3 of (currentByte, s4) \<Rightarrow>
              if st = VAN_RX_SEARCHING \<and> currentByte \<noteq> 0x03D then
                onDesc (\<lambda>d. d\<lparr>state := VAN_RX_VACANT\<rparr>) s4
              else isr_store_byte cfg st currentByte s4)
         else s3)"

text \<open>
  \<^verbatim>\<open>RxPinChangeIsr\<close>, the handler of a pin level change. Its inputs are the level
  read from the pin and the value \<open>curr'\<close> of the cycle counter (the variable
  \<^verbatim>\<open>curr\<close>); the state holds the queue and the static variables. The optional
  recording of debug samples (\<^verbatim>\<open>VAN_RX_ISR_DEBUGGING\<close>) is not part of the model.
\<close>

definition RxPinChangeIsr :: "Config \<Rightarrow> int \<Rightarrow> uint32_t \<Rightarrow> IsrState \<Rightarrow> IsrState" where
  "RxPinChangeIsr cfg pinLevelChangedTo curr' s0 =
     (if pinLevelChangedTo = prevPinLevelChangedTo s0 then s0
      else
        (let s1 = s0\<lparr>prevPinLevelChangedTo := pinLevelChangedTo\<rparr>;
             s2 = (if pinLevelChangedTo = VAN_BIT_RECESSIVE
                   then onQueue (\<lambda>q. q\<lparr>lastMediaAccessAt := curr'\<rparr>) s1 else s1);
             nCycles = curr' - prev s2;
             s3 = s2\<lparr>prev := curr'\<rparr>;
             nb = nBitsFromCycles (CPU_F_FACTOR cfg) nCycles (jitter s3);
             nBits = fst nb;
             s4 = s3\<lparr>jitter := snd nb\<rparr>;
             st = state (rxDesc s4);
             s5 = onDesc (\<lambda>d. d\<lparr>slot := int (head (VanBusRx s4))\<rparr>) s4
         in if st = VAN_RX_VACANT then
              (if pinLevelChangedTo = VAN_LOGICAL_LOW then
                 (onDesc (\<lambda>d. d\<lparr>state := VAN_RX_SEARCHING, ack := VAN_NO_ACK,
                                  size' := 0\<rparr>) s5)\<lparr>atBit := 0, readBits := 0\<rparr>
               else s5)
            else if st = VAN_RX_WAITING_ACK then
              onDesc (\<lambda>d. d\<lparr>ack := VAN_ACK\<rparr>) s5
            else if st \<noteq> VAN_RX_SEARCHING \<and> st \<noteq> VAN_RX_LOADING then
              onQueue (\<lambda>q. q\<lparr>overrun := True\<rparr>) s5
            else if nBits > 9 then
              (if st = VAN_RX_SEARCHING then
                 (onDesc (\<lambda>d. d\<lparr>size' := 0\<rparr>) s5)\<lparr>atBit := 0, readBits := 0\<rparr>
               else
                 onQueue AdvanceHead (onDesc (\<lambda>d. d\<lparr>result := VAN_RX_ERROR_NBITS\<rparr>) s5))
            else isr_decode cfg pinLevelChangedTo nBits st s5))"

section \<open>Reachable states\<close>

text \<open>
  Modelled from the spec: the constructor of the queue is in \<^verbatim>\<open>VanBusRx.h\<close>, which is
  not among the sources. The specification says that every descriptor starts VACANT; the
  producer and the consumer start at the same slot and no overrun is latched. The static
  variables have the initial values that the source file gives them.
\<close>

definition initial_state :: "IsrState \<Rightarrow> bool" where
  "initial_state s =
     (pool (VanBusRx s) \<noteq> [] \<and>
      (\<forall>d \<in> set (pool (VanBusRx s)). state d = VAN_RX_VACANT) \<and>
      head (VanBusRx s) = 0 \<and> tail (VanBusRx s) = 0 \<and> \<not> overrun (VanBusRx s) \<and>
      prevPinLevelChangedTo s = VAN_BIT_RECESSIVE \<and> prev s = 0 \<and> jitter s = 0 \<and>
      atBit s = 0 \<and> readBits s = 0)"

text \<open>
  The states that the receiver reaches: by a pin interrupt with any level and any value of
  the cycle counter, by the acknowledge timeout, which is armed only when the handler has
  put the head descriptor into the state WAITING_ACK, and by a call of \<^verbatim>\<open>Receive\<close>.
\<close>

inductive reachable :: "Config \<Rightarrow> IsrState \<Rightarrow> bool" for cfg :: Config where
  reach_init: "initial_state s \<Longrightarrow> reachable cfg s"
| reach_pin: "reachable cfg s \<Longrightarrow> reachable cfg (RxPinChangeIsr cfg pinLevelChangedTo curr' s)"
| reach_timeout:
    "reachable cfg s \<Longrightarrow> state (rxDesc s) = VAN_RX_WAITING_ACK \<Longrightarrow> reachable cfg (WaitAckIsr s)"
| reach_receive:
    "reachable cfg s \<Longrightarrow>
     reachable cfg (s\<lparr>VanBusRx := snd (snd (snd (Receive pkt isQueueOverrun (VanBusRx s))))\<rparr>)"

text \<open>
  An invariant of the reachable states: the head and the tail are slots of the pool, and
  every descriptor that is not VACANT holds the index of its slot, which the pin interrupt
  handler stores before it moves a descriptor out of the state VACANT.
\<close>

definition slots_ok :: "TVanPacketRxQueue \<Rightarrow> bool" where
  "slots_ok q \<longleftrightarrow>
     head q < length (pool q) \<and> tail q < length (pool q) \<and>
     (\<forall>i < length (pool q).
        state (pool q ! i) \<noteq> VAN_RX_VACANT \<longrightarrow> slot (pool q ! i) = int i)"

text \<open>Inside the handler, after the assignment to \<^verbatim>\<open>rxDesc->slot\<close>.\<close>

definition head_claimed :: "TVanPacketRxQueue \<Rightarrow> bool" where
  "head_claimed q \<longleftrightarrow> slots_ok q \<and> slot (pool q ! head q) = int (head q)"

text \<open>
  A second invariant of the reachable states: a descriptor that is SEARCHING or LOADING
  has no acknowledgement recorded. The pin interrupt handler sets \<^verbatim>\<open>ack\<close> to
  \<^verbatim>\<open>VAN_NO_ACK\<close> when it takes a descriptor out of the state VACANT and writes it
  again only in the state WAITING_ACK.
\<close>

definition acks_ok :: "TVanPacketRxQueue \<Rightarrow> bool" where
  "acks_ok q \<longleftrightarrow>
     (\<forall>i < length (pool q).
        state (pool q ! i) = VAN_RX_SEARCHING \<or> state (pool q ! i) = VAN_RX_LOADING
          \<longrightarrow> ack (pool q ! i) = VAN_NO_ACK)"

text \<open>
  The states in which the head descriptor waits for the acknowledge bit and no bit has
  been observed yet: a pin interrupt has just put the head descriptor of a reachable
  state into the state WAITING_ACK, and since then only spurious pin interrupts (the pin
  reads the level recorded before) and calls of \<^verbatim>\<open>Receive\<close> have happened.
\<close>

inductive no_ack_bit_yet :: "Config \<Rightarrow> IsrState \<Rightarrow> bool" for cfg :: Config where
  wait_enter:
    "reachable cfg s \<Longrightarrow> state (rxDesc s) \<noteq> VAN_RX_WAITING_ACK \<Longrightarrow>
     state (pool (VanBusRx (RxPinChangeIsr cfg pinLevelChangedTo curr' s)) ! head (VanBusRx s))
       = VAN_RX_WAITING_ACK \<Longrightarrow>
     no_ack_bit_yet cfg (RxPinChangeIsr cfg pinLevelChangedTo curr' s)"
| wait_spurious:
    "no_ack_bit_yet cfg s \<Longrightarrow>
     no_ack_bit_yet cfg (RxPinChangeIsr cfg (prevPinLevelChangedTo s) curr' s)"
| wait_receive:
    "no_ack_bit_yet cfg s \<Longrightarrow>
     no_ack_bit_yet cfg
       (s\<lparr>VanBusRx := snd (snd (snd (Receive pkt isQueueOverrun (VanBusRx s))))\<rparr>)"

section \<open>Notions for the analysis of the CRC\<close>

text \<open>The bits of a sequence of bytes in the order in which the CRC loop consumes them.\<close>

definition frame_bits :: "uint8_t list \<Rightarrow> bool list" where
  "frame_bits xs = concat (map msb_first xs)"

text \<open>The 15-bit register after the run of \<^verbatim>\<open>CheckCrc\<close> over a descriptor.\<close>

definition frame_register :: "TVanPacketRxDesc \<Rightarrow> 15 word" where
  "frame_register d = spec_crc15 (frame_slice (bytes d) 1 (size' d))"

text \<open>
  The number of bits that the run of \<^verbatim>\<open>CheckCrc\<close> consumes after the bit \<open>atBit'\<close>
  of the byte \<open>atByte\<close>.
\<close>

definition bits_after :: "TVanPacketRxDesc \<Rightarrow> int \<Rightarrow> nat \<Rightarrow> nat" where
  "bits_after d atByte atBit' = atBit' + 8 * (nat (size' d) - 1 - nat atByte)"

text \<open>The syndrome of a single wrong bit that is followed by \<open>p\<close> more bits.\<close>

definition syndrome :: "nat \<Rightarrow> 15 word" where
  "syndrome p = spec_crc_run 0x0F9D (replicate p False)"

text \<open>
  A check by computation: none of the first \<open>n\<close> registers that follow \<open>r\<close> under
  zero input bits is the polynomial \<open>0x0F9D\<close>.
\<close>

fun period_free :: "nat \<Rightarrow> 15 word \<Rightarrow> bool" where
  "period_free 0 r = True"
| "period_free (Suc n) r =
     (let r1 = spec_crc_bit r False in r1 \<noteq> 0x0F9D \<and> period_free n r1)"

section \<open>Concrete inputs\<close>

text \<open>
  Descriptors, queues and handler states with given contents, for the concrete instances
  of the theorems below. The example configuration is a processor at 80 MHz and
  descriptors of 32 bytes.
\<close>

definition example_desc ::
  "uint8_t list \<Rightarrow> int \<Rightarrow> PacketReadState_t \<Rightarrow> TVanPacketRxDesc" where
  "example_desc bs n st =
     \<lparr>bytes = bs, size' = n, state = st, result = VAN_RX_PACKET_OK, ack = VAN_NO_ACK,
      seqNo = 0, slot = 0\<rparr>"

definition example_queue ::
  "TVanPacketRxDesc list \<Rightarrow> nat \<Rightarrow> nat \<Rightarrow> bool \<Rightarrow> TVanPacketRxQueue" where
  "example_queue ds h t ov =
     \<lparr>pool = ds, head = h, tail = t, overrun = ov, count = 0, nCorrupt = 0, nRepaired = 0,
      lastMediaAccessAt = 0\<rparr>"

definition example_state :: "TVanPacketRxQueue \<Rightarrow> int \<Rightarrow> IsrState" where
  "example_state q lvl =
     \<lparr>VanBusRx = q, prevPinLevelChangedTo = lvl, prev = 0, jitter = 0, atBit = 0,
      readBits = 0\<rparr>"

definition example_cfg :: Config where
  "example_cfg = \<lparr>VAN_MAX_PACKET_SIZE = 32, CPU_F_FACTOR = 1\<rparr>"

text \<open>
  A handler state whose queue has two slots, the first of which is the head and the tail,
  holds one byte and is in the given state; the pin was last seen recessive.
\<close>

definition example_head_state :: "PacketReadState_t \<Rightarrow> IsrState" where
  "example_head_state st =
     example_state
       (example_queue [example_desc [0x0E] 1 st, example_desc [] 0 VAN_RX_VACANT] 0 0 False) 1"

text \<open>
  A queue of one slot in its initial state, and the state after six pin interrupts: the
  falling edge that starts the search, the four edges of the start of frame
  \<open>0000111101\<close> and an edge after a run of 15 bit times, which ends the frame with
  the result \<^verbatim>\<open>VAN_RX_ERROR_NBITS\<close>. The only slot is then DONE and is the head again.
\<close>

definition example_initial :: IsrState where
  "example_initial =
     example_state
       (example_queue [example_desc (replicate 32 0) 0 VAN_RX_VACANT] 0 0 False) 1"

definition example_full :: IsrState where
  "example_full =
     RxPinChangeIsr example_cfg 1 17400
       (RxPinChangeIsr example_cfg 0 7400
          (RxPinChangeIsr example_cfg 1 6760
             (RxPinChangeIsr example_cfg 0 6120
                (RxPinChangeIsr example_cfg 1 3560
                   (RxPinChangeIsr example_cfg 0 1000 example_initial)))))"

text \<open>
  The one-slot queue after the start of frame, LOADING; after two more edges, in the
  middle of the unit \<open>0000111100\<close>, still LOADING; and after the edge that ends this
  unit, whose low two bits mark the end of data: the head descriptor waits for the
  acknowledge bit.
\<close>

definition example_loading :: IsrState where
  "example_loading =
     RxPinChangeIsr example_cfg 0 7400
       (RxPinChangeIsr example_cfg 1 6760
          (RxPinChangeIsr example_cfg 0 6120
             (RxPinChangeIsr example_cfg 1 3560
                (RxPinChangeIsr example_cfg 0 1000 example_initial))))"

definition example_last_unit :: IsrState where
  "example_last_unit =
     RxPinChangeIsr example_cfg 0 12520 (RxPinChangeIsr example_cfg 1 9960 example_loading)"

definition example_waiting :: IsrState where
  "example_waiting = RxPinChangeIsr example_cfg 1 13800 example_last_unit"

text \<open>
  The full one-slot queue after one more pin edge, which latches the overrun flag, and a
  call of \<^verbatim>\<open>Receive\<close> with a null pointer, which frees the slot and leaves the flag
  latched: the head descriptor is VACANT.
\<close>

definition example_latched :: IsrState where
  "example_latched =
     (RxPinChangeIsr example_cfg 0 20000 example_full)
       \<lparr>VanBusRx := snd (snd (snd (Receive (example_desc [] 0 VAN_RX_VACANT) None
            (VanBusRx (RxPinChangeIsr example_cfg 0 20000 example_full)))))\<rparr>"

section \<open>Facts about words\<close>

lemma bit_word_times_2:
  "bit ((b :: 'a::len word) * 2) k \<longleftrightarrow> 0 < k \<and> k < LENGTH('a) \<and> bit b (k - 1)"
  using bit_push_bit_iff [of 1 b k] by (auto simp: bit_simps)

lemma and_exp_if: "(c :: 'a::len word) AND 2 ^ n = (if bit c n then 2 ^ n else 0)"
  by (rule bit_word_eqI) (auto simp: bit_simps)

lemma and_4000_eq: "(c :: 16 word) AND 0x4000 = (if bit c 14 then 0x4000 else 0)"
  using and_exp_if [of c 14] by simp

lemma and_80_eq: "(b :: 8 word) AND 0x80 = (if bit b 7 then 0x80 else 0)"
  using and_exp_if [of b 7] by simp

lemma ucast_push_bit_down:
  "LENGTH('b::len) \<le> LENGTH('a::len) \<Longrightarrow>
   (ucast (push_bit n (c :: 'a word)) :: 'b word) = push_bit n (ucast c)"
  by (rule bit_word_eqI) (auto simp: bit_simps)

lemma ucast_times_2_16_15: "(ucast ((c :: 16 word) * 2) :: 15 word) = ucast c * 2"
  using ucast_push_bit_down [of 1 c, where 'b=15] by simp

lemma bit_ucast_14: "bit (ucast (c :: 16 word) :: 15 word) 14 = bit c 14"
  by (simp add: bit_simps)

lemma and_mask_ucast:
  "n = LENGTH('b::len) \<Longrightarrow> (c :: 'a::len word) AND mask n = ucast (ucast c :: 'b word)"
  by (rule bit_word_eqI) (auto simp: bit_simps)

lemma and_7FFF_ucast: "(c :: 16 word) AND 0x7FFF = ucast (ucast c :: 15 word)"
  using and_mask_ucast [of 15 c, where 'b=15] by (simp add: mask_eq_exp_minus_1)

lemma ucast_15_16_15: "(ucast (ucast (a :: 15 word) :: 16 word) :: 15 word) = a"
  by (rule bit_word_eqI) (auto simp: bit_simps)

lemma ucast_15_16_inj: "(ucast (a :: 15 word) :: 16 word) = ucast b \<longleftrightarrow> a = b"
  by (metis ucast_15_16_15)

lemma push_bit_1_ucast_15: "push_bit 1 (x :: 16 word) = push_bit 1 (ucast (ucast x :: 15 word))"
  by (rule bit_word_eqI) (auto simp: bit_simps bit_word_times_2)

section \<open>The program's CRC loop computes the 15-bit register\<close>

text \<open>
  The program keeps the register in a 16-bit variable whose top bit is never cleared
  inside the loop. Its low 15 bits are the register of the specification.
\<close>

lemma crc_bit_step_refines:
  "ucast (fst (crc_bit_step c b)) = spec_crc_bit (ucast c) (bit b 7)"
  by (simp add: crc_bit_step_def spec_crc_bit_def Let_def and_4000_eq and_80_eq
      VAN_CRC_POLYNOM_def unsigned_xor_eq ucast_times_2_16_15 bit_ucast_14)

lemma crc_bit_step_snd: "snd (crc_bit_step c b) = push_bit 1 b"
  by (simp add: crc_bit_step_def Let_def)

lemma msb_bits_Suc:
  assumes "n \<le> 7"
  shows "map (\<lambda>j. bit (b :: 8 word) (7 - j)) [0..<Suc n]
       = bit b 7 # map (\<lambda>j. bit (push_bit 1 b) (7 - j)) [0..<n]"
proof -
  have "map (\<lambda>j. bit b (7 - j)) [0..<Suc n] = bit b 7 # map (\<lambda>j. bit b (7 - Suc j)) [0..<n]"
    by (simp only: upt_conv_Cons [of 0 "Suc n"] map_Suc_upt [symmetric])
       (simp del: upt_Suc add: comp_def)
  moreover have "map (\<lambda>j. bit b (7 - Suc j)) [0..<n]
               = map (\<lambda>j. bit (push_bit 1 b) (7 - j)) [0..<n]"
    using assms by (intro map_cong refl) (auto simp: bit_simps bit_word_times_2)
  ultimately show ?thesis by simp
qed

lemma crc_bits_refines:
  "n \<le> 8 \<Longrightarrow>
   ucast (crc_bits n c b) = spec_crc_run (ucast c) (map (\<lambda>j. bit b (7 - j)) [0..<n])"
proof (induction n arbitrary: c b)
  case 0
  then show ?case by (simp add: spec_crc_run_def)
next
  case (Suc n)
  obtain c1 b1 where st: "crc_bit_step c b = (c1, b1)" by (cases "crc_bit_step c b")
  have c1: "ucast c1 = spec_crc_bit (ucast c) (bit b 7)"
    using crc_bit_step_refines [of c b] st by simp
  have b1: "b1 = push_bit 1 b"
    using crc_bit_step_snd [of c b] st by simp
  have "ucast (crc_bits (Suc n) c b) = ucast (crc_bits n c1 b1)"
    by (simp add: st)
  also have "\<dots> = spec_crc_run (ucast c1) (map (\<lambda>j. bit b1 (7 - j)) [0..<n])"
    using Suc.IH [of c1 b1] Suc.prems by simp
  also have "\<dots> = spec_crc_run (ucast c) (map (\<lambda>j. bit b (7 - j)) [0..<Suc n])"
    using Suc.prems by (simp only: msb_bits_Suc c1 b1 spec_crc_run_def foldl_Cons)
  finally show ?case .
qed

lemma msb_first_upt: "msb_first b = map (\<lambda>j. bit b (7 - j)) [0..<8]"
  by (simp add: msb_first_def upt_rec)

lemma crc_byte_refines: "ucast (crc_bits 8 c b) = spec_crc_run (ucast c) (msb_first b)"
  by (simp only: msb_first_upt crc_bits_refines [OF order_refl])

lemma spec_crc_run_append: "spec_crc_run r (xs @ ys) = spec_crc_run (spec_crc_run r xs) ys"
  by (simp add: spec_crc_run_def)

lemma frame_slice_step:
  assumes "0 \<le> i" "i < lim" "lim \<le> int (length bs)"
  shows "frame_slice bs i lim = bs ! nat i # frame_slice bs (i + 1) lim"
proof -
  have n: "nat i < length (take (nat lim) bs)" using assms by simp
  have s: "nat (i + 1) = Suc (nat i)" using assms by simp
  have "drop (nat i) (take (nat lim) bs)
        = take (nat lim) bs ! nat i # drop (Suc (nat i)) (take (nat lim) bs)"
    using n by (rule Cons_nth_drop_Suc [symmetric])
  moreover have "take (nat lim) bs ! nat i = bs ! nat i"
    using assms by simp
  ultimately show ?thesis by (simp add: frame_slice_def s)
qed

lemma frame_slice_empty: "lim \<le> i \<Longrightarrow> 0 \<le> i \<Longrightarrow> frame_slice bs i lim = []"
  by (simp add: frame_slice_def)

lemma crc_loop_refines:
  "0 \<le> i \<Longrightarrow> lim \<le> int (length bs) \<Longrightarrow>
   ucast (crc_loop bs i lim c)
     = spec_crc_run (ucast c) (concat (map msb_first (frame_slice bs i lim)))"
proof (induction bs i lim c rule: crc_loop.induct)
  case (1 bs i lim c)
  show ?case
  proof (cases "i < lim")
    case True
    have "ucast (crc_loop bs i lim c)
          = ucast (crc_loop bs (i + 1) lim (crc_bits 8 c (bs ! nat i)))"
      using True by (subst crc_loop.simps) simp
    also have "\<dots> = spec_crc_run (ucast (crc_bits 8 c (bs ! nat i)))
                         (concat (map msb_first (frame_slice bs (i + 1) lim)))"
      using "1.IH" [OF True] "1.prems" by simp
    also have "\<dots> = spec_crc_run (ucast c) (concat (map msb_first (frame_slice bs i lim)))"
      using True "1.prems" by (simp add: frame_slice_step crc_byte_refines spec_crc_run_append)
    finally show ?thesis .
  next
    case False
    then show ?thesis using "1.prems"
      by (subst crc_loop.simps) (simp add: frame_slice_empty spec_crc_run_def)
  qed
qed

lemma CheckCrc_refines:
  assumes "size' d \<le> int (length (bytes d))"
  shows "CheckCrc d \<longleftrightarrow> spec_crc15 (frame_slice (bytes d) 1 (size' d)) = 0x19B7"
proof -
  let ?r = "spec_crc15 (frame_slice (bytes d) 1 (size' d))"
  have r: "ucast (crc_loop (bytes d) 1 (size' d) 0x7FFF) = ?r"
    using crc_loop_refines [of 1 "size' d" "bytes d" "0x7FFF"] assms
    by (simp add: spec_crc15_def)
  have k: "(0x19B7 :: 16 word) = ucast (0x19B7 :: 15 word)" by simp
  have "CheckCrc d \<longleftrightarrow> (ucast ?r :: 16 word) = ucast (0x19B7 :: 15 word)"
    unfolding CheckCrc_def and_7FFF_ucast r k ..
  then show ?thesis
    by (simp only: ucast_15_16_inj)
qed

lemma crc_refines:
  assumes "sz - 2 \<le> int (length bs)"
  shows "crc bs sz = push_bit 1 (ucast (spec_crc15 (frame_slice bs 1 (sz - 2)) XOR 0x7FFF))"
proof -
  have "(ucast (crc_loop bs 1 (sz - 2) 0x7FFF XOR 0x7FFF) :: 15 word)
        = spec_crc15 (frame_slice bs 1 (sz - 2)) XOR 0x7FFF"
    using crc_loop_refines [of 1 "sz - 2" bs "0x7FFF"] assms
    by (simp add: unsigned_xor_eq spec_crc15_def)
  then show ?thesis
    unfolding crc_def using push_bit_1_ucast_15 by metis
qed

section \<open>What the compute and the verify variant return\<close>

text \<open>
  C3, as the claim states it, fails: a left shift is not the only final step. For the
  frame \<open>0E 4D 40 .. ..\<close> the register holds \<open>0x3151\<close> after the two bytes between the
  first byte and the trailer, whose left shift is \<open>0x62A2\<close>, but \<^verbatim>\<open>_crc\<close> returns
  \<open>0x9D5C\<close>.
\<close>

theorem crc_only_shift_counterexample:
  "crc [0x0E, 0x4D, 0x40, 0, 0] 5 \<noteq>
   push_bit 1 (ucast (spec_crc15 (frame_slice [0x0E, 0x4D, 0x40, 0, 0] 1 (5 - 2))))"
  by code_simp

text \<open>
  C3, amended. For every buffer and size (the loop reading inside the buffer), \<^verbatim>\<open>_crc\<close>
  returns the 15-bit CRC register (polynomial \<open>0x0F9D\<close>, initial register \<open>0x7FFF\<close>,
  each byte most significant bit first, over the bytes of the frame except the first one
  and the final two), XOR-ed with \<open>0x7FFF\<close>, that is with all its 15 bits inverted,
  and then shifted left by one bit into 16 bits.
\<close>

theorem crc_is_inverted_register:
  assumes "sz - 2 \<le> int (length bs)"
  shows "crc bs sz = push_bit 1 (ucast (spec_crc15 (frame_slice bs 1 (sz - 2)) XOR 0x7FFF))"
  using assms by (rule crc_refines)

theorem crc_is_inverted_register_witness:
  "(5 :: int) - 2 \<le> int (length [0x0E, 0x4D, 0x40, 0, 0 :: uint8_t]) \<and>
   crc [0x0E, 0x4D, 0x40, 0, 0] 5
     = push_bit 1
         (ucast (spec_crc15 (frame_slice [0x0E, 0x4D, 0x40, 0, 0] 1 (5 - 2)) XOR 0x7FFF))"
  using crc_is_inverted_register [of 5 "[0x0E, 0x4D, 0x40, 0, 0]"]
  by simp

text \<open>
  C5. \<^verbatim>\<open>CheckCrc\<close> runs the 15-bit CRC (polynomial \<open>0x0F9D\<close>, initial register
  \<open>0x7FFF\<close>, each byte most significant bit first) over the frame up to its end, the
  trailing CRC bytes included, and returns true iff the final register of 15 bits equals
  \<open>0x19B7\<close>. As the specification says of both variants, the run starts after the
  first byte of the frame, the start marker. The size is at most the capacity of the
  buffer.
\<close>

theorem CheckCrc_runs_over_trailer:
  assumes "size' d \<le> int (length (bytes d))"
  shows "CheckCrc d \<longleftrightarrow> spec_crc15 (frame_slice (bytes d) 1 (size' d)) = 0x19B7"
  using assms by (rule CheckCrc_refines)

lemma example_frame_register:
  "spec_crc15 (frame_slice [0x0E, 0x4D, 0x40, 0x9D, 0x5C] 1 5) = 0x19B7"
  by code_simp

theorem CheckCrc_runs_over_trailer_witness:
  "size' (example_desc [0x0E, 0x4D, 0x40, 0x9D, 0x5C] 5 VAN_RX_DONE)
     \<le> int (length (bytes (example_desc [0x0E, 0x4D, 0x40, 0x9D, 0x5C] 5 VAN_RX_DONE))) \<and>
   CheckCrc (example_desc [0x0E, 0x4D, 0x40, 0x9D, 0x5C] 5 VAN_RX_DONE) \<and>
   spec_crc15 (frame_slice [0x0E, 0x4D, 0x40, 0x9D, 0x5C] 1 5) = 0x19B7"
  using CheckCrc_runs_over_trailer
    [of "example_desc [0x0E, 0x4D, 0x40, 0x9D, 0x5C] 5 VAN_RX_DONE"]
    example_frame_register
  by (simp add: example_desc_def)

section \<open>The payload length\<close>

text \<open>
  C10. \<^verbatim>\<open>DataLen\<close> returns the size minus 5 and does not clamp the result: for a
  descriptor whose size is less than 5 it returns a negative number, whereas the payload
  length that \<^verbatim>\<open>DumpRaw\<close> prints is clamped at zero (and agrees with \<^verbatim>\<open>DataLen\<close> from
  size 5 on).
\<close>

theorem DataLen_not_clamped:
  "DataLen d = size' d - 5 \<and>
   (size' d < 5 \<longrightarrow> DataLen d < 0 \<and> DumpRaw_dataLen d = 0) \<and>
   (5 \<le> size' d \<longrightarrow> DumpRaw_dataLen d = DataLen d)"
  by (simp add: DataLen_def DumpRaw_dataLen_def)

theorem DataLen_not_clamped_witness:
  "size' (example_desc [0x0E, 0x4D] 2 VAN_RX_DONE) < 5 \<and>
   DataLen (example_desc [0x0E, 0x4D] 2 VAN_RX_DONE) = - 3 \<and>
   DumpRaw_dataLen (example_desc [0x0E, 0x4D] 2 VAN_RX_DONE) = 0 \<and>
   5 \<le> size' (example_desc [0x0E, 0x4D, 0x40, 0x12, 0x34, 0x56, 0x78] 7 VAN_RX_DONE) \<and>
   DumpRaw_dataLen (example_desc [0x0E, 0x4D, 0x40, 0x12, 0x34, 0x56, 0x78] 7 VAN_RX_DONE) = 2"
  using DataLen_not_clamped [of "example_desc [0x0E, 0x4D] 2 VAN_RX_DONE"]
    DataLen_not_clamped
      [of "example_desc [0x0E, 0x4D, 0x40, 0x12, 0x34, 0x56, 0x78] 7 VAN_RX_DONE"]
  by (simp add: example_desc_def)

section \<open>Carried jitter\<close>

text \<open>
  C4, as the claim states it, fails. On a processor at 80 MHz a first call with 900 cycles
  returns one bit and stores the remainder 100. A second call with 1100 cycles then works
  with the effective count 1200, which is not less than 1100, and returns two bits; had
  the remainder been subtracted, the count 1000 would have given one bit.
\<close>

theorem jitter_decrease_counterexample:
  "snd (nBitsFromCycles 1 900 0) = 100 \<and>
   effectiveCycles 1100 (snd (nBitsFromCycles 1 900 0)) = 1200 \<and>
   \<not> effectiveCycles 1100 (snd (nBitsFromCycles 1 900 0)) < 1100 \<and>
   nBitsFromCycles 1 1100 (snd (nBitsFromCycles 1 900 0)) = (2, 0) \<and>
   nBitsFromCycles 1 (1100 - 100) 0 = (1, 200)"
  by (simp add: nBitsFromCycles_def effectiveCycles_def Let_def)

text \<open>
  C4, amended. The stored remainder is added to the cycle count of the next call, modulo
  \<open>2 ^ 32\<close>: it increases the effective count whenever it is not zero and the sum does
  not wrap. The call uses the stored value in this sum only, the variable being reset to
  zero before any new remainder is stored: the call with the count \<open>nCycles\<close> and the
  stored remainder \<open>jit\<close> returns the number of bits and the new remainder that a call
  with the effective count and no stored remainder returns, and the remainder it leaves
  is zero or the excess of the effective count over one of the five thresholds.
\<close>

theorem jitter_added_once:
  "unat (effectiveCycles nCycles jit) = (unat nCycles + unat jit) mod 2 ^ 32 \<and>
   nBitsFromCycles F nCycles jit = nBitsFromCycles F (effectiveCycles nCycles jit) 0 \<and>
   (snd (nBitsFromCycles F nCycles jit) = 0 \<or>
    snd (nBitsFromCycles F nCycles jit) = effectiveCycles nCycles jit - 800 * F \<or>
    snd (nBitsFromCycles F nCycles jit) = effectiveCycles nCycles jit - 1380 * F \<or>
    snd (nBitsFromCycles F nCycles jit) = effectiveCycles nCycles jit - 2100 * F \<or>
    snd (nBitsFromCycles F nCycles jit) = effectiveCycles nCycles jit - 2655 * F \<or>
    snd (nBitsFromCycles F nCycles jit) = effectiveCycles nCycles jit - 3300 * F) \<and>
   (jit \<noteq> 0 \<and> unat nCycles + unat jit < 2 ^ 32 \<longrightarrow> nCycles < effectiveCycles nCycles jit)"
proof (intro conjI)
  show "unat (effectiveCycles nCycles jit) = (unat nCycles + unat jit) mod 2 ^ 32"
    by (simp add: effectiveCycles_def unat_word_ariths)
  show "nBitsFromCycles F nCycles jit = nBitsFromCycles F (effectiveCycles nCycles jit) 0"
    by (simp add: nBitsFromCycles_def effectiveCycles_def Let_def)
  show "snd (nBitsFromCycles F nCycles jit) = 0 \<or>
    snd (nBitsFromCycles F nCycles jit) = effectiveCycles nCycles jit - 800 * F \<or>
    snd (nBitsFromCycles F nCycles jit) = effectiveCycles nCycles jit - 1380 * F \<or>
    snd (nBitsFromCycles F nCycles jit) = effectiveCycles nCycles jit - 2100 * F \<or>
    snd (nBitsFromCycles F nCycles jit) = effectiveCycles nCycles jit - 2655 * F \<or>
    snd (nBitsFromCycles F nCycles jit) = effectiveCycles nCycles jit - 3300 * F"
    by (simp add: nBitsFromCycles_def Let_def)
  show "jit \<noteq> 0 \<and> unat nCycles + unat jit < 2 ^ 32 \<longrightarrow> nCycles < effectiveCycles nCycles jit"
    by (simp add: effectiveCycles_def word_less_nat_alt unat_word_ariths unat_gt_0)
qed

theorem jitter_added_once_witness:
  "(100 :: uint32_t) \<noteq> 0 \<and> unat (1100 :: uint32_t) + unat (100 :: uint32_t) < 2 ^ 32 \<and>
   (1100 :: uint32_t) < effectiveCycles 1100 100 \<and>
   nBitsFromCycles 1 1100 100 = nBitsFromCycles 1 (effectiveCycles 1100 100) 0"
  using jitter_added_once [of 1100 100 1]
  by simp

section \<open>A spurious pin interrupt\<close>

text \<open>
  C9. When the pin reads the level that the previous invocation recorded,
  \<^verbatim>\<open>RxPinChangeIsr\<close> returns at once and leaves the whole state as it was: every
  descriptor, the queue and the static variables of the decoder. In particular the saved
  cycle count \<^verbatim>\<open>prev\<close> is not updated, so that the handler treats the next edge exactly
  as if the spurious interrupt had not happened, its cycle delta being measured from the
  last genuine edge.
\<close>

theorem spurious_interrupt_ignored:
  assumes "pinLevelChangedTo = prevPinLevelChangedTo s"
  shows "RxPinChangeIsr cfg pinLevelChangedTo curr' s = s \<and>
         prev (RxPinChangeIsr cfg pinLevelChangedTo curr' s) = prev s \<and>
         RxPinChangeIsr cfg lvl2 curr2 (RxPinChangeIsr cfg pinLevelChangedTo curr' s)
           = RxPinChangeIsr cfg lvl2 curr2 s"
  using assms by (simp add: RxPinChangeIsr_def)

theorem spurious_interrupt_ignored_witness:
  "1 = prevPinLevelChangedTo
         (example_state (example_queue [example_desc [] 0 VAN_RX_SEARCHING] 0 0 False) 1) \<and>
   RxPinChangeIsr example_cfg 1 5000
     (example_state (example_queue [example_desc [] 0 VAN_RX_SEARCHING] 0 0 False) 1)
     = example_state (example_queue [example_desc [] 0 VAN_RX_SEARCHING] 0 0 False) 1 \<and>
   RxPinChangeIsr example_cfg 0 7000
     (RxPinChangeIsr example_cfg 1 5000
        (example_state (example_queue [example_desc [] 0 VAN_RX_SEARCHING] 0 0 False) 1))
     = RxPinChangeIsr example_cfg 0 7000
         (example_state (example_queue [example_desc [] 0 VAN_RX_SEARCHING] 0 0 False) 1)"
  using spurious_interrupt_ignored
    [of 1 "example_state (example_queue [example_desc [] 0 VAN_RX_SEARCHING] 0 0 False) 1"
        example_cfg 5000 0 7000]
  by (simp add: example_state_def)

section \<open>The consumer side of the queue\<close>

text \<open>
  C8, as the claim states it, fails: a successful call of \<^verbatim>\<open>Receive\<close> with a null
  pointer \<^verbatim>\<open>isQueueOverrun\<close> neither reports nor clears the latched overrun flag.
\<close>

theorem Receive_report_counterexample:
  "fst (Receive (example_desc [] 0 VAN_RX_VACANT) None
          (example_queue [example_desc [0x0E] 1 VAN_RX_DONE] 0 0 True)) \<and>
   overrun (snd (snd (snd (Receive (example_desc [] 0 VAN_RX_VACANT) None
          (example_queue [example_desc [0x0E] 1 VAN_RX_DONE] 0 0 True)))))"
  by (simp add: Receive_def Available_def example_queue_def example_desc_def Init_def
      AdvanceTail_def Let_def)

text \<open>
  C8, amended. \<^verbatim>\<open>Receive\<close> does not block. Whenever the descriptor at the tail is not
  DONE it returns false and leaves the queue, the caller's packet and the target of the
  pointer unchanged. When the descriptor at the tail is DONE it copies the whole descriptor
  into the caller's packet, resets the drained slot to VACANT, advances the tail and
  returns true; if the caller passed a pointer \<^verbatim>\<open>isQueueOverrun\<close> that is not null it
  stores the latched overrun flag there and then clears the flag, and otherwise it leaves
  the flag as it is.
\<close>

theorem Receive_drains_tail:
  "(\<not> Available q \<longrightarrow> Receive pkt isQueueOverrun q = (False, pkt, isQueueOverrun, q)) \<and>
   (Available q \<and> tail q < length (pool q) \<longrightarrow>
      (case Receive pkt isQueueOverrun q of (r, pkt1, ov1, q1) \<Rightarrow>
         r \<and> pkt1 = pool q ! tail q \<and>
         pool q1 = (pool q)[tail q := (pool q ! tail q)\<lparr>state := VAN_RX_VACANT\<rparr>] \<and>
         state (pool q1 ! tail q) = VAN_RX_VACANT \<and>
         tail q1 = (tail q + 1) mod length (pool q) \<and>
         head q1 = head q \<and>
         (case isQueueOverrun of
            None \<Rightarrow> ov1 = None \<and> overrun q1 = overrun q
          | Some b \<Rightarrow> ov1 = Some (overrun q) \<and> \<not> overrun q1)))"
  by (auto simp add: Receive_def Let_def Init_def AdvanceTail_def IsQueueOverrun_def
      ClearQueueOverrun_def split: option.splits)

theorem Receive_drains_tail_witness:
  "\<not> Available (example_queue [example_desc [0x0E] 1 VAN_RX_LOADING] 0 0 True) \<and>
   Receive (example_desc [] 0 VAN_RX_VACANT) (Some False)
       (example_queue [example_desc [0x0E] 1 VAN_RX_LOADING] 0 0 True)
     = (False, example_desc [] 0 VAN_RX_VACANT, Some False,
        example_queue [example_desc [0x0E] 1 VAN_RX_LOADING] 0 0 True) \<and>
   Available (example_queue [example_desc [0x0E] 1 VAN_RX_DONE,
                             example_desc [] 0 VAN_RX_VACANT] 1 0 True) \<and>
   tail (example_queue [example_desc [0x0E] 1 VAN_RX_DONE,
                        example_desc [] 0 VAN_RX_VACANT] 1 0 True)
     < length (pool (example_queue [example_desc [0x0E] 1 VAN_RX_DONE,
                                    example_desc [] 0 VAN_RX_VACANT] 1 0 True)) \<and>
   (case Receive (example_desc [] 0 VAN_RX_VACANT) (Some False)
           (example_queue [example_desc [0x0E] 1 VAN_RX_DONE,
                           example_desc [] 0 VAN_RX_VACANT] 1 0 True)
    of (r, pkt1, ov1, q1) \<Rightarrow>
       r \<and> pkt1 = example_desc [0x0E] 1 VAN_RX_DONE \<and> ov1 = Some True \<and>
       \<not> overrun q1 \<and> tail q1 = 1 \<and> state (pool q1 ! 0) = VAN_RX_VACANT) \<and>
   (case Receive (example_desc [] 0 VAN_RX_VACANT) None
           (example_queue [example_desc [0x0E] 1 VAN_RX_DONE,
                           example_desc [] 0 VAN_RX_VACANT] 1 0 True)
    of (r, pkt1, ov1, q1) \<Rightarrow>
       r \<and> pkt1 = example_desc [0x0E] 1 VAN_RX_DONE \<and> ov1 = None \<and>
       overrun q1 \<and> tail q1 = 1 \<and> state (pool q1 ! 0) = VAN_RX_VACANT)"
  using
    Receive_drains_tail [of "example_queue [example_desc [0x0E] 1 VAN_RX_LOADING] 0 0 True"
      "example_desc [] 0 VAN_RX_VACANT" "Some False"]
    Receive_drains_tail [of "example_queue [example_desc [0x0E] 1 VAN_RX_DONE,
                           example_desc [] 0 VAN_RX_VACANT] 1 0 True"
      "example_desc [] 0 VAN_RX_VACANT" "Some False"]
    Receive_drains_tail [of "example_queue [example_desc [0x0E] 1 VAN_RX_DONE,
                           example_desc [] 0 VAN_RX_VACANT] 1 0 True"
      "example_desc [] 0 VAN_RX_VACANT" "None"]
  by (simp add: Available_def example_queue_def example_desc_def split: prod.splits)

section \<open>The pin interrupt handler on a long run\<close>

lemma map_update_same:
  "i < length xs \<Longrightarrow> f (xs ! i) = v \<Longrightarrow> (map f xs)[i := v] = map f xs"
  by (metis list_update_id map_update)

text \<open>
  C7. A pin edge (the level differs from the one recorded) whose run is classified as more
  than 9 bit times. If the head descriptor is SEARCHING, the bit count \<^verbatim>\<open>atBit\<close>, the
  bits \<^verbatim>\<open>readBits\<close> and the size of the descriptor are reset and the descriptor stays
  SEARCHING: besides its size only its slot index is written; no result code is set, no
  counter changes, the head does not move and no descriptor changes its state, so no frame
  is surfaced. If the head descriptor is LOADING, its result is set to
  \<^verbatim>\<open>VAN_RX_ERROR_NBITS\<close> and the queue head is advanced, which completes the frame:
  the slot is DONE and the next slot is the head.
\<close>

theorem long_run_handling:
  assumes "pinLevelChangedTo \<noteq> prevPinLevelChangedTo s"
    and "head (VanBusRx s) < length (pool (VanBusRx s))"
    and "9 < fst (nBitsFromCycles (CPU_F_FACTOR cfg) (curr' - prev s) (jitter s))"
  shows "(state (rxDesc s) = VAN_RX_SEARCHING \<longrightarrow>
           (let s1 = RxPinChangeIsr cfg pinLevelChangedTo curr' s
            in atBit s1 = 0 \<and> readBits s1 = 0 \<and> size' (rxDesc s1) = 0 \<and>
               state (rxDesc s1) = VAN_RX_SEARCHING \<and>
               pool (VanBusRx s1) = (pool (VanBusRx s))
                 [head (VanBusRx s) :=
                    (rxDesc s)\<lparr>slot := int (head (VanBusRx s)), size' := 0\<rparr>] \<and>
               map state (pool (VanBusRx s1)) = map state (pool (VanBusRx s)) \<and>
               map result (pool (VanBusRx s1)) = map result (pool (VanBusRx s)) \<and>
               head (VanBusRx s1) = head (VanBusRx s) \<and>
               tail (VanBusRx s1) = tail (VanBusRx s) \<and>
               overrun (VanBusRx s1) = overrun (VanBusRx s) \<and>
               count (VanBusRx s1) = count (VanBusRx s) \<and>
               nCorrupt (VanBusRx s1) = nCorrupt (VanBusRx s) \<and>
               nRepaired (VanBusRx s1) = nRepaired (VanBusRx s))) \<and>
         (state (rxDesc s) = VAN_RX_LOADING \<longrightarrow>
           (let s1 = RxPinChangeIsr cfg pinLevelChangedTo curr' s
            in result (pool (VanBusRx s1) ! head (VanBusRx s)) = VAN_RX_ERROR_NBITS \<and>
               state (pool (VanBusRx s1) ! head (VanBusRx s)) = VAN_RX_DONE \<and>
               head (VanBusRx s1)
                 = (head (VanBusRx s) + 1) mod length (pool (VanBusRx s))))"
  using assms
  by (simp add: RxPinChangeIsr_def Let_def rxDesc_def onDesc_def onQueue_def
      AdvanceHead_def map_update map_update_same)

lemma example_head_state_simps:
  "prevPinLevelChangedTo (example_head_state st) = 1"
  "head (VanBusRx (example_head_state st)) = 0"
  "length (pool (VanBusRx (example_head_state st))) = 2"
  "prev (example_head_state st) = 0"
  "jitter (example_head_state st) = 0"
  "state (rxDesc (example_head_state st)) = st"
  "ack (rxDesc (example_head_state st)) = VAN_NO_ACK"
  by (simp_all add: example_head_state_def example_state_def example_queue_def
      example_desc_def rxDesc_def)

lemma example_long_run: "fst (nBitsFromCycles (CPU_F_FACTOR example_cfg) 10000 0) = 15"
  by (simp add: nBitsFromCycles_def effectiveCycles_def example_cfg_def Let_def)

theorem long_run_handling_witness:
  "0 \<noteq> prevPinLevelChangedTo (example_head_state VAN_RX_SEARCHING) \<and>
   head (VanBusRx (example_head_state VAN_RX_SEARCHING))
     < length (pool (VanBusRx (example_head_state VAN_RX_SEARCHING))) \<and>
   9 < fst (nBitsFromCycles (CPU_F_FACTOR example_cfg)
              (10000 - prev (example_head_state VAN_RX_SEARCHING))
              (jitter (example_head_state VAN_RX_SEARCHING))) \<and>
   state (rxDesc (example_head_state VAN_RX_SEARCHING)) = VAN_RX_SEARCHING \<and>
   state (rxDesc (RxPinChangeIsr example_cfg 0 10000 (example_head_state VAN_RX_SEARCHING)))
     = VAN_RX_SEARCHING \<and>
   size' (rxDesc (RxPinChangeIsr example_cfg 0 10000 (example_head_state VAN_RX_SEARCHING)))
     = 0 \<and>
   head (VanBusRx (RxPinChangeIsr example_cfg 0 10000 (example_head_state VAN_RX_SEARCHING)))
     = 0 \<and>
   state (rxDesc (example_head_state VAN_RX_LOADING)) = VAN_RX_LOADING \<and>
   result (pool (VanBusRx
       (RxPinChangeIsr example_cfg 0 10000 (example_head_state VAN_RX_LOADING))) ! 0)
     = VAN_RX_ERROR_NBITS \<and>
   state (pool (VanBusRx
       (RxPinChangeIsr example_cfg 0 10000 (example_head_state VAN_RX_LOADING))) ! 0)
     = VAN_RX_DONE \<and>
   head (VanBusRx (RxPinChangeIsr example_cfg 0 10000 (example_head_state VAN_RX_LOADING)))
     = 1"
  using long_run_handling [of 0 "example_head_state VAN_RX_SEARCHING" example_cfg 10000]
    long_run_handling [of 0 "example_head_state VAN_RX_LOADING" example_cfg 10000]
  by (simp add: example_head_state_simps example_long_run Let_def)

section \<open>The overrun policy\<close>

text \<open>
  The invariant \<open>slots_ok\<close> holds in the initial state and is kept by both interrupt
  handlers and by \<^verbatim>\<open>Receive\<close>; the overrun flag is never cleared by an interrupt
  handler.
\<close>

lemma head_claimed_slots_ok: "head_claimed q \<Longrightarrow> slots_ok q"
  by (simp add: head_claimed_def)

lemma slots_ok_claim:
  "slots_ok (VanBusRx s) \<Longrightarrow>
   head_claimed (VanBusRx (onDesc (\<lambda>d. d\<lparr>slot := int (head (VanBusRx s))\<rparr>) s))"
  by (auto simp: slots_ok_def head_claimed_def nth_list_update onDesc_def onQueue_def)

lemma head_claimed_onDesc:
  "head_claimed (VanBusRx s) \<Longrightarrow> (\<And>d. slot (f d) = slot d) \<Longrightarrow>
   head_claimed (VanBusRx (onDesc f s))"
  by (auto simp: slots_ok_def head_claimed_def nth_list_update onDesc_def onQueue_def)

lemma head_claimed_AdvanceHead:
  assumes "head_claimed (VanBusRx s)"
  shows "slots_ok (VanBusRx (onQueue AdvanceHead s))"
proof -
  have "0 < length (pool (VanBusRx s))"
    using assms by (auto simp: slots_ok_def head_claimed_def)
  then have "(head (VanBusRx s) + 1) mod length (pool (VanBusRx s)) < length (pool (VanBusRx s))"
    by (rule mod_less_divisor)
  then show ?thesis
    using assms
    by (auto simp: slots_ok_def head_claimed_def AdvanceHead_def nth_list_update onQueue_def)
qed

lemma head_claimed_overrun:
  "head_claimed (VanBusRx s) \<Longrightarrow>
   head_claimed (VanBusRx (onQueue (\<lambda>q. q\<lparr>overrun := b\<rparr>) s))"
  by (auto simp: slots_ok_def head_claimed_def onQueue_def)

lemma slots_ok_lastMediaAccessAt:
  "slots_ok (VanBusRx s) \<Longrightarrow>
   slots_ok (VanBusRx (onQueue (\<lambda>q. q\<lparr>lastMediaAccessAt := c\<rparr>) s))"
  by (auto simp: slots_ok_def onQueue_def)

lemma VanBusRx_isr_shift_run [simp]: "VanBusRx (isr_shift_run lvl n s) = VanBusRx s"
  by (simp add: isr_shift_run_def Let_def)

lemma VanBusRx_isr_take_unit [simp]: "VanBusRx (snd (isr_take_unit s)) = VanBusRx s"
  by (simp add: isr_take_unit_def Let_def)

lemma isr_store_byte_slots_ok:
  assumes "head_claimed (VanBusRx s)"
  shows "slots_ok (VanBusRx (isr_store_byte cfg st cb s))"
proof -
  define s5 where "s5 = (if st = VAN_RX_SEARCHING
                then onDesc (\<lambda>d. d\<lparr>state := VAN_RX_LOADING\<rparr>) s else s)"
  define s6 where "s6 = s5\<lparr>readBits := readBits s5 AND (push_bit (unat (atBit s5)) 1 - 1)\<rparr>"
  define s7 where "s7 = onDesc (\<lambda>d. d\<lparr>bytes := (bytes d)[nat (size' d) :=
       ucast ((drop_bit 2 cb AND 0xF0) OR (drop_bit 1 cb AND 0x0F))], size' := size' d + 1\<rparr>) s6"
  have 5: "head_claimed (VanBusRx s5)"
    using assms by (simp add: s5_def head_claimed_onDesc)
  then have 6: "head_claimed (VanBusRx s6)" by (simp add: s6_def)
  then have 7: "head_claimed (VanBusRx s7)" unfolding s7_def by (rule head_claimed_onDesc) simp
  have "isr_store_byte cfg st cb s =
      (if cb AND 0x003 = 0 then
           onDesc (\<lambda>d. d\<lparr>state := VAN_RX_WAITING_ACK\<rparr>) s7
         else if size' (rxDesc s7) \<ge> VAN_MAX_PACKET_SIZE cfg then
           onQueue AdvanceHead (onDesc (\<lambda>d. d\<lparr>result := VAN_RX_ERROR_MAX_PACKET\<rparr>) s7)
         else s7)"
    by (simp only: isr_store_byte_def Let_def s5_def s6_def s7_def)
  then show ?thesis
    using 7 by (auto intro!: head_claimed_slots_ok head_claimed_AdvanceHead head_claimed_onDesc)
qed

lemma isr_decode_slots_ok:
  assumes "head_claimed (VanBusRx s)"
  shows "slots_ok (VanBusRx (isr_decode cfg lvl nBits st s))"
proof -
  obtain cb s4 where u: "isr_take_unit (isr_shift_run lvl nBits s) = (cb, s4)"
    by (cases "isr_take_unit (isr_shift_run lvl nBits s)")
  have "VanBusRx s4 = VanBusRx s"
    using VanBusRx_isr_take_unit [of "isr_shift_run lvl nBits s"] u by simp
  then have 4: "head_claimed (VanBusRx s4)" using assms by simp
  show ?thesis
    using assms 4
    by (auto simp: isr_decode_def Let_def u
        intro!: head_claimed_slots_ok isr_store_byte_slots_ok head_claimed_onDesc)
qed

lemma RxPinChangeIsr_slots_ok:
  assumes "slots_ok (VanBusRx s)"
  shows "slots_ok (VanBusRx (RxPinChangeIsr cfg lvl c s))"
proof (cases "lvl = prevPinLevelChangedTo s")
  case True
  then show ?thesis using assms by (simp add: RxPinChangeIsr_def)
next
  case False
  define s2 where "s2 = (if lvl = VAN_BIT_RECESSIVE
       then onQueue (\<lambda>q. q\<lparr>lastMediaAccessAt := c\<rparr>) (s\<lparr>prevPinLevelChangedTo := lvl\<rparr>)
       else s\<lparr>prevPinLevelChangedTo := lvl\<rparr>)"
  define nb where
    "nb = nBitsFromCycles (CPU_F_FACTOR cfg) (c - prev s2) (jitter (s2\<lparr>prev := c\<rparr>))"
  define s4 where "s4 = s2\<lparr>prev := c, jitter := snd nb\<rparr>"
  define s5 where "s5 = onDesc (\<lambda>d. d\<lparr>slot := int (head (VanBusRx s4))\<rparr>) s4"
  have "slots_ok (VanBusRx (s\<lparr>prevPinLevelChangedTo := lvl\<rparr>))"
    using assms by simp
  then have "slots_ok (VanBusRx s2)"
    unfolding s2_def by (auto intro: slots_ok_lastMediaAccessAt)
  then have "slots_ok (VanBusRx s4)" by (simp add: s4_def)
  then have 5: "head_claimed (VanBusRx s5)" unfolding s5_def by (rule slots_ok_claim)
  have e: "RxPinChangeIsr cfg lvl c s =
    (let st = state (rxDesc s4) in
         if st = VAN_RX_VACANT then
              (if lvl = VAN_LOGICAL_LOW then
                 (onDesc (\<lambda>d. d\<lparr>state := VAN_RX_SEARCHING, ack := VAN_NO_ACK,
                                  size' := 0\<rparr>) s5)\<lparr>atBit := 0, readBits := 0\<rparr>
               else s5)
            else if st = VAN_RX_WAITING_ACK then
              onDesc (\<lambda>d. d\<lparr>ack := VAN_ACK\<rparr>) s5
            else if st \<noteq> VAN_RX_SEARCHING \<and> st \<noteq> VAN_RX_LOADING then
              onQueue (\<lambda>q. q\<lparr>overrun := True\<rparr>) s5
            else if fst nb > 9 then
              (if st = VAN_RX_SEARCHING then
                 (onDesc (\<lambda>d. d\<lparr>size' := 0\<rparr>) s5)\<lparr>atBit := 0, readBits := 0\<rparr>
               else
                 onQueue AdvanceHead (onDesc (\<lambda>d. d\<lparr>result := VAN_RX_ERROR_NBITS\<rparr>) s5))
            else isr_decode cfg lvl (fst nb) st s5)"
    using False by (simp add: RxPinChangeIsr_def Let_def s2_def nb_def s4_def s5_def)
  show ?thesis
    unfolding e Let_def using 5
    by (auto intro!: head_claimed_slots_ok head_claimed_AdvanceHead head_claimed_onDesc
        isr_decode_slots_ok head_claimed_overrun)
qed

lemma initial_slots_ok: "initial_state s \<Longrightarrow> slots_ok (VanBusRx s)"
  by (auto simp: initial_state_def slots_ok_def)

lemma WaitAckIsr_slots_ok:
  assumes "slots_ok (VanBusRx s)" and "state (rxDesc s) = VAN_RX_WAITING_ACK"
  shows "slots_ok (VanBusRx (WaitAckIsr s))"
proof -
  have "head_claimed (VanBusRx s)"
    using assms by (simp add: head_claimed_def slots_ok_def rxDesc_def)
  then show ?thesis
    unfolding WaitAckIsr_def by (rule head_claimed_AdvanceHead)
qed

lemma Receive_slots_ok:
  assumes "slots_ok q"
  shows "slots_ok (snd (snd (snd (Receive pkt ov q))))"
proof -
  have "0 < length (pool q)" using assms by (auto simp: slots_ok_def)
  then have "(tail q + 1) mod length (pool q) < length (pool q)"
    by (rule mod_less_divisor)
  then show ?thesis
    using assms
    by (auto simp: Receive_def Let_def slots_ok_def Init_def AdvanceTail_def
        ClearQueueOverrun_def nth_list_update split: option.splits)
qed

lemma reachable_slots_ok: "reachable cfg s \<Longrightarrow> slots_ok (VanBusRx s)"
proof (induction rule: reachable.induct)
  case (reach_init s)
  then show ?case by (rule initial_slots_ok)
next
  case (reach_pin s pinLevelChangedTo curr')
  then show ?case by (simp add: RxPinChangeIsr_slots_ok)
next
  case (reach_timeout s)
  then show ?case by (simp add: WaitAckIsr_slots_ok)
next
  case (reach_receive s pkt isQueueOverrun)
  then show ?case by (simp add: Receive_slots_ok)
qed

lemma overrun_onDesc [simp]: "overrun (VanBusRx (onDesc f s)) = overrun (VanBusRx s)"
  by (simp add: onDesc_def onQueue_def)

lemma overrun_AdvanceHead [simp]:
  "overrun (VanBusRx (onQueue AdvanceHead s)) = overrun (VanBusRx s)"
  by (simp add: onQueue_def AdvanceHead_def)

lemma overrun_isr_store_byte [simp]:
  "overrun (VanBusRx (isr_store_byte cfg st cb s)) = overrun (VanBusRx s)"
  by (simp add: isr_store_byte_def Let_def)

lemma overrun_isr_decode [simp]:
  "overrun (VanBusRx (isr_decode cfg lvl n st s)) = overrun (VanBusRx s)"
proof -
  obtain cb s4 where u: "isr_take_unit (isr_shift_run lvl n s) = (cb, s4)"
    by (cases "isr_take_unit (isr_shift_run lvl n s)")
  have "VanBusRx s4 = VanBusRx s"
    using VanBusRx_isr_take_unit [of "isr_shift_run lvl n s"] u by simp
  then show ?thesis
    by (simp add: isr_decode_def Let_def u)
qed

lemma overrun_RxPinChangeIsr:
  "overrun (VanBusRx s) \<Longrightarrow> overrun (VanBusRx (RxPinChangeIsr cfg lvl c s))"
  by (simp add: RxPinChangeIsr_def Let_def) (simp add: onQueue_def)

lemma RxPinChangeIsr_head_done:
  assumes "state (rxDesc s) = VAN_RX_DONE" and "lvl \<noteq> prevPinLevelChangedTo s"
  shows "RxPinChangeIsr cfg lvl c s =
     onQueue (\<lambda>q. q\<lparr>overrun := True\<rparr>)
       (onDesc (\<lambda>d. d\<lparr>slot := int (head (VanBusRx s))\<rparr>)
          ((if lvl = VAN_BIT_RECESSIVE
            then onQueue (\<lambda>q. q\<lparr>lastMediaAccessAt := c\<rparr>) (s\<lparr>prevPinLevelChangedTo := lvl\<rparr>)
            else s\<lparr>prevPinLevelChangedTo := lvl\<rparr>)
           \<lparr>prev := c,
             jitter := snd (nBitsFromCycles (CPU_F_FACTOR cfg) (c - prev s) (jitter s))\<rparr>))"
  using assms
  by (simp add: RxPinChangeIsr_def Let_def rxDesc_def onQueue_def onDesc_def)

lemma example_initial_ok: "initial_state example_initial"
  by (simp add: initial_state_def example_initial_def example_state_def example_queue_def
      example_desc_def VAN_BIT_RECESSIVE_def VAN_LOGICAL_HIGH_def)

lemma example_full_reachable: "reachable example_cfg example_full"
  unfolding example_full_def
  by (intro reach_pin reach_init example_initial_ok)

lemma example_full_done: "state (rxDesc example_full) = VAN_RX_DONE"
  by code_simp

lemma example_latched_simps:
  "overrun (VanBusRx example_latched)"
  "state (rxDesc example_latched) = VAN_RX_VACANT"
  "1 \<noteq> prevPinLevelChangedTo example_latched"
  "\<not> Available (VanBusRx example_latched)"
  by code_simp+

text \<open>
  C6. In every reachable state whose head descriptor is DONE, the queue being full, an
  invocation of \<^verbatim>\<open>RxPinChangeIsr\<close> leaves every descriptor of the pool as it is (the
  slot index that it stores into the head descriptor is the one the descriptor holds
  already), starts no frame, moves neither the head nor the tail and changes neither the
  counters nor the bits collected so far; on a pin edge it sets the overrun flag. Of the
  queue and the decoder nothing else changes; the handler keeps its record of the edge
  itself (the pin level, the cycle count and the jitter, and the time of the last media
  access) as on every edge. The flag is sticky in every state, whatever the state of the
  head descriptor and whether or not the state is reachable: once set, it stays set over
  every invocation of the two interrupt handlers and over \<^verbatim>\<open>Receive\<close> with a null
  pointer; a call of \<^verbatim>\<open>Receive\<close> with a pointer for the flag leaves it set exactly
  when it has no frame to return, and otherwise reports and clears it.
\<close>

theorem done_slot_not_overwritten:
  "(reachable cfg s \<and> state (rxDesc s) = VAN_RX_DONE \<longrightarrow>
      pool (VanBusRx (RxPinChangeIsr cfg pinLevelChangedTo curr' s)) = pool (VanBusRx s) \<and>
      head (VanBusRx (RxPinChangeIsr cfg pinLevelChangedTo curr' s)) = head (VanBusRx s) \<and>
      tail (VanBusRx (RxPinChangeIsr cfg pinLevelChangedTo curr' s)) = tail (VanBusRx s) \<and>
      count (VanBusRx (RxPinChangeIsr cfg pinLevelChangedTo curr' s)) = count (VanBusRx s) \<and>
      nCorrupt (VanBusRx (RxPinChangeIsr cfg pinLevelChangedTo curr' s))
        = nCorrupt (VanBusRx s) \<and>
      nRepaired (VanBusRx (RxPinChangeIsr cfg pinLevelChangedTo curr' s))
        = nRepaired (VanBusRx s) \<and>
      atBit (RxPinChangeIsr cfg pinLevelChangedTo curr' s) = atBit s \<and>
      readBits (RxPinChangeIsr cfg pinLevelChangedTo curr' s) = readBits s \<and>
      (pinLevelChangedTo \<noteq> prevPinLevelChangedTo s \<longrightarrow>
         overrun (VanBusRx (RxPinChangeIsr cfg pinLevelChangedTo curr' s)))) \<and>
   (overrun (VanBusRx s) \<longrightarrow>
      overrun (VanBusRx (RxPinChangeIsr cfg pinLevelChangedTo curr' s)) \<and>
      overrun (VanBusRx (WaitAckIsr s)) \<and>
      overrun (snd (snd (snd (Receive pkt None (VanBusRx s))))) \<and>
      (overrun (snd (snd (snd (Receive pkt (Some b) (VanBusRx s)))))
         \<longleftrightarrow> \<not> Available (VanBusRx s)))"
proof (rule conjI)
  let ?r = "RxPinChangeIsr cfg pinLevelChangedTo curr' s"
  let ?kept = "pool (VanBusRx ?r) = pool (VanBusRx s) \<and>
      head (VanBusRx ?r) = head (VanBusRx s) \<and>
      tail (VanBusRx ?r) = tail (VanBusRx s) \<and>
      count (VanBusRx ?r) = count (VanBusRx s) \<and>
      nCorrupt (VanBusRx ?r) = nCorrupt (VanBusRx s) \<and>
      nRepaired (VanBusRx ?r) = nRepaired (VanBusRx s) \<and>
      atBit ?r = atBit s \<and>
      readBits ?r = readBits s \<and>
      (pinLevelChangedTo \<noteq> prevPinLevelChangedTo s \<longrightarrow> overrun (VanBusRx ?r))"
  show "reachable cfg s \<and> state (rxDesc s) = VAN_RX_DONE \<longrightarrow> ?kept"
  proof (rule impI)
   assume a: "reachable cfg s \<and> state (rxDesc s) = VAN_RX_DONE"
   show ?kept
   proof (cases "pinLevelChangedTo = prevPinLevelChangedTo s")
    case True
    then show ?thesis by (simp add: RxPinChangeIsr_def)
   next
    case False
    have d: "state (rxDesc s) = VAN_RX_DONE" using a by simp
    have ok: "slots_ok (VanBusRx s)" using a reachable_slots_ok [of cfg s] by simp
    then have "slot (pool (VanBusRx s) ! head (VanBusRx s)) = int (head (VanBusRx s))"
      using d by (simp add: slots_ok_def rxDesc_def)
    then have same: "(pool (VanBusRx s))[head (VanBusRx s) :=
            (pool (VanBusRx s) ! head (VanBusRx s))\<lparr>slot := int (head (VanBusRx s))\<rparr>]
          = pool (VanBusRx s)"
      by (metis list_update_id TVanPacketRxDesc.surjective TVanPacketRxDesc.update_convs(7))
    show ?thesis
      unfolding RxPinChangeIsr_head_done [OF d False]
      using same by (simp add: onQueue_def onDesc_def)
   qed
  qed
next
  show "overrun (VanBusRx s) \<longrightarrow>
      overrun (VanBusRx (RxPinChangeIsr cfg pinLevelChangedTo curr' s)) \<and>
      overrun (VanBusRx (WaitAckIsr s)) \<and>
      overrun (snd (snd (snd (Receive pkt None (VanBusRx s))))) \<and>
      (overrun (snd (snd (snd (Receive pkt (Some b) (VanBusRx s)))))
         \<longleftrightarrow> \<not> Available (VanBusRx s))"
  proof (intro impI conjI)
    assume o: "overrun (VanBusRx s)"
    show "overrun (VanBusRx (RxPinChangeIsr cfg pinLevelChangedTo curr' s))"
      using o by (rule overrun_RxPinChangeIsr)
    show "overrun (VanBusRx (WaitAckIsr s))"
      using o by (simp add: WaitAckIsr_def)
    show "overrun (snd (snd (snd (Receive pkt None (VanBusRx s)))))"
      using o by (simp add: Receive_def Let_def AdvanceTail_def)
    show "overrun (snd (snd (snd (Receive pkt (Some b) (VanBusRx s)))))
         \<longleftrightarrow> \<not> Available (VanBusRx s)"
      using o by (simp add: Receive_def Let_def AdvanceTail_def ClearQueueOverrun_def)
  qed
qed

theorem done_slot_not_overwritten_witness:
  "reachable example_cfg example_full \<and> state (rxDesc example_full) = VAN_RX_DONE \<and>
   0 \<noteq> prevPinLevelChangedTo example_full \<and>
   pool (VanBusRx (RxPinChangeIsr example_cfg 0 20000 example_full))
     = pool (VanBusRx example_full) \<and>
   overrun (VanBusRx (RxPinChangeIsr example_cfg 0 20000 example_full)) \<and>
   overrun (VanBusRx (WaitAckIsr (RxPinChangeIsr example_cfg 0 20000 example_full))) \<and>
   overrun (VanBusRx (RxPinChangeIsr example_cfg 1 30000
                        (RxPinChangeIsr example_cfg 0 20000 example_full))) \<and>
   overrun (VanBusRx example_latched) \<and>
   state (rxDesc example_latched) = VAN_RX_VACANT \<and>
   1 \<noteq> prevPinLevelChangedTo example_latched \<and>
   overrun (VanBusRx (RxPinChangeIsr example_cfg 1 30000 example_latched)) \<and>
   overrun (VanBusRx (RxPinChangeIsr example_cfg 0 31000
                        (RxPinChangeIsr example_cfg 1 30000 example_latched))) \<and>
   overrun (snd (snd (snd (Receive (example_desc [] 0 VAN_RX_VACANT) None
                             (VanBusRx example_latched))))) \<and>
   overrun (snd (snd (snd (Receive (example_desc [] 0 VAN_RX_VACANT) (Some False)
                             (VanBusRx example_latched)))))"
proof -
  have p: "0 \<noteq> prevPinLevelChangedTo example_full" by code_simp
  have r2: "reachable example_cfg (RxPinChangeIsr example_cfg 0 20000 example_full)"
    by (intro reach_pin example_full_reachable)
  have d2: "state (rxDesc (RxPinChangeIsr example_cfg 0 20000 example_full)) = VAN_RX_DONE"
    by code_simp
  show ?thesis
    using done_slot_not_overwritten [of example_cfg example_full 0 20000]
      done_slot_not_overwritten
        [of example_cfg "RxPinChangeIsr example_cfg 0 20000 example_full" 1 30000]
      done_slot_not_overwritten
        [of example_cfg example_latched 1 30000 "example_desc [] 0 VAN_RX_VACANT" False]
      done_slot_not_overwritten
        [of example_cfg "RxPinChangeIsr example_cfg 1 30000 example_latched" 0 31000]
      p r2 d2
    by (simp add: example_full_reachable example_full_done example_latched_simps)
qed

section \<open>The acknowledge window\<close>

text \<open>
  The invariant \<open>acks_ok\<close> holds in the initial state and is kept by both interrupt
  handlers and by \<^verbatim>\<open>Receive\<close>. With it, the head descriptor that a pin interrupt
  puts into the state WAITING_ACK has no acknowledgement recorded, and it has none as long
  as no pin edge is seen.
\<close>

lemma acks_ok_onDesc:
  assumes "acks_ok (VanBusRx s)"
    and "state (f (rxDesc s)) = VAN_RX_SEARCHING \<or> state (f (rxDesc s)) = VAN_RX_LOADING
           \<Longrightarrow> ack (f (rxDesc s)) = VAN_NO_ACK"
  shows "acks_ok (VanBusRx (onDesc f s))"
  unfolding acks_ok_def
proof (intro allI impI)
  fix i
  let ?q = "VanBusRx s"
  assume i: "i < length (pool (VanBusRx (onDesc f s)))"
    and st: "state (pool (VanBusRx (onDesc f s)) ! i) = VAN_RX_SEARCHING \<or>
             state (pool (VanBusRx (onDesc f s)) ! i) = VAN_RX_LOADING"
  have p: "pool (VanBusRx (onDesc f s)) = (pool ?q)[head ?q := f (rxDesc s)]"
    by (simp add: onDesc_def onQueue_def rxDesc_def)
  have il: "i < length (pool ?q)" using i by (simp add: p)
  show "ack (pool (VanBusRx (onDesc f s)) ! i) = VAN_NO_ACK"
  proof (cases "i = head ?q")
    case True
    then show ?thesis using st il assms(2) by (simp add: p)
  next
    case False
    then show ?thesis using st il assms(1) by (auto simp: p acks_ok_def)
  qed
qed

lemma acks_ok_pool: "pool q = pool q' \<Longrightarrow> acks_ok q = acks_ok q'"
  by (simp add: acks_ok_def)

lemma acks_ok_AdvanceHead:
  assumes "acks_ok (VanBusRx s)"
  shows "acks_ok (VanBusRx (onQueue AdvanceHead s))"
proof -
  have p: "pool (VanBusRx (onQueue AdvanceHead s))
        = pool (VanBusRx (onDesc (\<lambda>d. d\<lparr>state := VAN_RX_DONE\<rparr>) s))"
    by (simp add: onQueue_def onDesc_def AdvanceHead_def)
  have "acks_ok (VanBusRx (onDesc (\<lambda>d. d\<lparr>state := VAN_RX_DONE\<rparr>) s))"
    using assms by (rule acks_ok_onDesc) simp
  then show ?thesis by (simp only: acks_ok_pool [OF p])
qed

lemma acks_ok_queue_fields:
  "acks_ok (VanBusRx (onQueue (\<lambda>q. q\<lparr>overrun := b\<rparr>) s)) = acks_ok (VanBusRx s)"
  "acks_ok (VanBusRx (onQueue (\<lambda>q. q\<lparr>lastMediaAccessAt := c\<rparr>) s)) = acks_ok (VanBusRx s)"
  by (simp_all add: acks_ok_def onQueue_def)

lemma rxDesc_onDesc:
  "head (VanBusRx s) < length (pool (VanBusRx s)) \<Longrightarrow> rxDesc (onDesc f s) = f (rxDesc s)"
  by (simp add: rxDesc_def onDesc_def onQueue_def)

lemma head_onDesc [simp]: "head (VanBusRx (onDesc f s)) = head (VanBusRx s)"
  by (simp add: onDesc_def onQueue_def)

lemma length_pool_onDesc [simp]:
  "length (pool (VanBusRx (onDesc f s))) = length (pool (VanBusRx s))"
  by (simp add: onDesc_def onQueue_def)

lemma rxDesc_statics [simp]:
  "rxDesc (s\<lparr>readBits := r\<rparr>) = rxDesc s"
  "rxDesc (s\<lparr>atBit := a\<rparr>) = rxDesc s"
  "rxDesc (s\<lparr>jitter := j\<rparr>) = rxDesc s"
  "rxDesc (s\<lparr>prev := c\<rparr>) = rxDesc s"
  "rxDesc (s\<lparr>prevPinLevelChangedTo := l\<rparr>) = rxDesc s"
  by (simp_all add: rxDesc_def)

lemma slot_onDesc:
  "head (VanBusRx t) < length (pool (VanBusRx t)) \<Longrightarrow>
   pool (VanBusRx (onDesc f t)) ! head (VanBusRx t) = f (rxDesc t)"
  by (simp add: rxDesc_def onDesc_def onQueue_def)

lemma slot_AdvanceHead:
  "head (VanBusRx t) < length (pool (VanBusRx t)) \<Longrightarrow>
   pool (VanBusRx (onQueue AdvanceHead t)) ! head (VanBusRx t) = (rxDesc t)\<lparr>state := VAN_RX_DONE\<rparr>"
  by (simp add: rxDesc_def AdvanceHead_def onQueue_def)

text \<open>
  The slot that is the head before the unit is stored: the step does not write its
  \<^verbatim>\<open>ack\<close>, and the head stays where it is when the step leaves the slot WAITING_ACK.
\<close>

lemma isr_store_byte_slot:
  assumes h: "head (VanBusRx s) < length (pool (VanBusRx s))"
  shows "ack (pool (VanBusRx (isr_store_byte cfg st cb s)) ! head (VanBusRx s)) = ack (rxDesc s) \<and>
         (state (pool (VanBusRx (isr_store_byte cfg st cb s)) ! head (VanBusRx s))
            = VAN_RX_WAITING_ACK
          \<longrightarrow> head (VanBusRx (isr_store_byte cfg st cb s)) = head (VanBusRx s)) \<and>
         (acks_ok (VanBusRx s) \<and> ack (rxDesc s) = VAN_NO_ACK
          \<longrightarrow> acks_ok (VanBusRx (isr_store_byte cfg st cb s)))"
proof -
  define s5 where "s5 = (if st = VAN_RX_SEARCHING
                then onDesc (\<lambda>d. d\<lparr>state := VAN_RX_LOADING\<rparr>) s else s)"
  define s6 where "s6 = s5\<lparr>readBits := readBits s5 AND (push_bit (unat (atBit s5)) 1 - 1)\<rparr>"
  define s7 where "s7 = onDesc (\<lambda>d. d\<lparr>bytes := (bytes d)[nat (size' d) :=
       ucast ((drop_bit 2 cb AND 0xF0) OR (drop_bit 1 cb AND 0x0F))], size' := size' d + 1\<rparr>) s6"
  have h5: "head (VanBusRx s5) = head (VanBusRx s)"
     "length (pool (VanBusRx s5)) = length (pool (VanBusRx s))"
    by (simp_all add: s5_def)
  have a5: "ack (rxDesc s5) = ack (rxDesc s)"
    using h by (simp add: s5_def rxDesc_onDesc)
  have k5: "acks_ok (VanBusRx s5)" if "acks_ok (VanBusRx s)" "ack (rxDesc s) = VAN_NO_ACK"
    using that h by (auto simp: s5_def rxDesc_onDesc intro!: acks_ok_onDesc)
  have h7: "head (VanBusRx s7) = head (VanBusRx s)"
     "length (pool (VanBusRx s7)) = length (pool (VanBusRx s))"
    by (simp_all add: s7_def s6_def h5)
  have r7: "rxDesc s7 = (rxDesc s5)\<lparr>bytes := (bytes (rxDesc s5))[nat (size' (rxDesc s5)) :=
       ucast ((drop_bit 2 cb AND 0xF0) OR (drop_bit 1 cb AND 0x0F))], size' := size' (rxDesc s5) + 1\<rparr>"
    using h h5 by (simp add: s7_def s6_def rxDesc_onDesc)
  have a7: "ack (rxDesc s7) = ack (rxDesc s)"
    by (simp add: r7 a5)
  have k7: "acks_ok (VanBusRx s7)" if "acks_ok (VanBusRx s)" "ack (rxDesc s) = VAN_NO_ACK"
    unfolding s7_def using k5 [OF that] that a5
    by (intro acks_ok_onDesc) (simp_all add: s6_def acks_ok_def)
  have e: "isr_store_byte cfg st cb s =
      (if cb AND 0x003 = 0 then
           onDesc (\<lambda>d. d\<lparr>state := VAN_RX_WAITING_ACK\<rparr>) s7
         else if size' (rxDesc s7) \<ge> VAN_MAX_PACKET_SIZE cfg then
           onQueue AdvanceHead (onDesc (\<lambda>d. d\<lparr>result := VAN_RX_ERROR_MAX_PACKET\<rparr>) s7)
         else s7)"
    by (simp only: isr_store_byte_def Let_def s5_def s6_def s7_def)
  have hh: "head (VanBusRx s7) < length (pool (VanBusRx s7))" using h h7 by simp
  have p7: "pool (VanBusRx (onDesc f s7)) ! head (VanBusRx s) = f (rxDesc s7)" for f
    using slot_onDesc [OF hh, of f] by (simp only: h7(1))
  consider (eod) "cb AND 0x003 = 0"
    | (full) "cb AND 0x003 \<noteq> 0" "size' (rxDesc s7) \<ge> VAN_MAX_PACKET_SIZE cfg"
    | (more) "cb AND 0x003 \<noteq> 0" "\<not> size' (rxDesc s7) \<ge> VAN_MAX_PACKET_SIZE cfg"
    by blast
  then show ?thesis
  proof cases
    case eod
    have e1: "isr_store_byte cfg st cb s = onDesc (\<lambda>d. d\<lparr>state := VAN_RX_WAITING_ACK\<rparr>) s7"
      using eod by (simp add: e)
    have c1: "ack (pool (VanBusRx (onDesc (\<lambda>d. d\<lparr>state := VAN_RX_WAITING_ACK\<rparr>) s7))
                ! head (VanBusRx s)) = ack (rxDesc s)"
      by (simp add: p7 a7)
    have c2: "head (VanBusRx (onDesc (\<lambda>d. d\<lparr>state := VAN_RX_WAITING_ACK\<rparr>) s7)) = head (VanBusRx s)"
      by (simp add: h7(1))
    have c3: "acks_ok (VanBusRx (onDesc (\<lambda>d. d\<lparr>state := VAN_RX_WAITING_ACK\<rparr>) s7))"
      if "acks_ok (VanBusRx s)" "ack (rxDesc s) = VAN_NO_ACK"
      using k7 [OF that] by (rule acks_ok_onDesc) simp
    show ?thesis
      unfolding e1 using c1 c2 c3 by blast
  next
    case full
    define t where "t = onDesc (\<lambda>d. d\<lparr>result := VAN_RX_ERROR_MAX_PACKET\<rparr>) s7"
    have e2: "isr_store_byte cfg st cb s = onQueue AdvanceHead t"
      using full by (simp add: e t_def)
    have ht: "head (VanBusRx t) = head (VanBusRx s)"
      by (simp add: t_def h7(1))
    have lt: "head (VanBusRx t) < length (pool (VanBusRx t))"
      using hh by (simp add: t_def)
    have rt: "rxDesc t = (rxDesc s7)\<lparr>result := VAN_RX_ERROR_MAX_PACKET\<rparr>"
      unfolding t_def using hh by (rule rxDesc_onDesc)
    have kt: "acks_ok (VanBusRx t)" if "acks_ok (VanBusRx s)" "ack (rxDesc s) = VAN_NO_ACK"
      unfolding t_def using k7 [OF that] by (rule acks_ok_onDesc) (simp add: a7 that(2))
    have pq: "pool (VanBusRx (onQueue AdvanceHead t)) ! head (VanBusRx s)
               = (rxDesc t)\<lparr>state := VAN_RX_DONE\<rparr>"
      using slot_AdvanceHead [OF lt] by (simp only: ht)
    have c1: "ack (pool (VanBusRx (onQueue AdvanceHead t)) ! head (VanBusRx s)) = ack (rxDesc s)"
      by (simp add: pq rt a7)
    have c2: "state (pool (VanBusRx (onQueue AdvanceHead t)) ! head (VanBusRx s)) \<noteq> VAN_RX_WAITING_ACK"
      by (simp add: pq)
    have c3: "acks_ok (VanBusRx (onQueue AdvanceHead t))"
      if "acks_ok (VanBusRx s)" "ack (rxDesc s) = VAN_NO_ACK"
      using kt [OF that] by (rule acks_ok_AdvanceHead)
    show ?thesis
      unfolding e2 using c1 c2 c3 by blast
  next
    case more
    have e3: "isr_store_byte cfg st cb s = s7"
      using more by (simp add: e)
    have c1: "ack (pool (VanBusRx s7) ! head (VanBusRx s)) = ack (rxDesc s)"
      using a7 by (simp only: rxDesc_def h7(1))
    show ?thesis
      unfolding e3 using c1 h7(1) k7 by blast
  qed
qed

lemma rxDesc_isr_shift_run [simp]: "rxDesc (isr_shift_run lvl n s) = rxDesc s"
  by (simp add: rxDesc_def)

lemma isr_decode_slot:
  assumes h: "head (VanBusRx s) < length (pool (VanBusRx s))"
  shows "ack (pool (VanBusRx (isr_decode cfg lvl n st s)) ! head (VanBusRx s)) = ack (rxDesc s) \<and>
         (state (pool (VanBusRx (isr_decode cfg lvl n st s)) ! head (VanBusRx s))
            = VAN_RX_WAITING_ACK
          \<longrightarrow> head (VanBusRx (isr_decode cfg lvl n st s)) = head (VanBusRx s)) \<and>
         (acks_ok (VanBusRx s) \<and> ack (rxDesc s) = VAN_NO_ACK
          \<longrightarrow> acks_ok (VanBusRx (isr_decode cfg lvl n st s)))"
proof -
  obtain cb s4 where u: "isr_take_unit (isr_shift_run lvl n s) = (cb, s4)"
    by (cases "isr_take_unit (isr_shift_run lvl n s)")
  have q4: "VanBusRx s4 = VanBusRx s"
    using VanBusRx_isr_take_unit [of "isr_shift_run lvl n s"] u by simp
  then have r4: "rxDesc s4 = rxDesc s" by (simp add: rxDesc_def)
  have h4: "head (VanBusRx s4) < length (pool (VanBusRx s4))" using h q4 by simp
  note sb = isr_store_byte_slot [OF h4, of cfg st cb, unfolded q4 r4]
  have vac: "acks_ok (VanBusRx (onDesc (\<lambda>d. d\<lparr>state := VAN_RX_VACANT\<rparr>) s4))"
    if "acks_ok (VanBusRx s)"
    using that q4 by (intro acks_ok_onDesc) simp_all
  have vs: "pool (VanBusRx (onDesc (\<lambda>d. d\<lparr>state := VAN_RX_VACANT\<rparr>) s4)) ! head (VanBusRx s)
            = (rxDesc s)\<lparr>state := VAN_RX_VACANT\<rparr>"
    using h by (simp add: onDesc_def onQueue_def q4 rxDesc_def)
  show ?thesis
    using sb vac vs
    by (auto simp: isr_decode_def Let_def u rxDesc_def)
qed

lemma RxPinChangeIsr_acks:
  assumes h: "head (VanBusRx s) < length (pool (VanBusRx s))"
    and ok: "acks_ok (VanBusRx s)"
  shows "acks_ok (VanBusRx (RxPinChangeIsr cfg lvl c s)) \<and>
         (state (rxDesc s) \<noteq> VAN_RX_WAITING_ACK \<and>
          state (pool (VanBusRx (RxPinChangeIsr cfg lvl c s)) ! head (VanBusRx s))
            = VAN_RX_WAITING_ACK
          \<longrightarrow> head (VanBusRx (RxPinChangeIsr cfg lvl c s)) = head (VanBusRx s) \<and>
              ack (pool (VanBusRx (RxPinChangeIsr cfg lvl c s)) ! head (VanBusRx s))
                = VAN_NO_ACK)"
proof (cases "lvl = prevPinLevelChangedTo s")
  case True
  then show ?thesis using ok by (simp add: RxPinChangeIsr_def rxDesc_def)
next
  case False
  define s2 where "s2 = (if lvl = VAN_BIT_RECESSIVE
       then onQueue (\<lambda>q. q\<lparr>lastMediaAccessAt := c\<rparr>) (s\<lparr>prevPinLevelChangedTo := lvl\<rparr>)
       else s\<lparr>prevPinLevelChangedTo := lvl\<rparr>)"
  define nb where
    "nb = nBitsFromCycles (CPU_F_FACTOR cfg) (c - prev s2) (jitter (s2\<lparr>prev := c\<rparr>))"
  define s4 where "s4 = s2\<lparr>prev := c, jitter := snd nb\<rparr>"
  define s5 where "s5 = onDesc (\<lambda>d. d\<lparr>slot := int (head (VanBusRx s4))\<rparr>) s4"
  have p4: "pool (VanBusRx s4) = pool (VanBusRx s)" "head (VanBusRx s4) = head (VanBusRx s)"
    by (simp_all add: s4_def s2_def onQueue_def)
  then have r4: "rxDesc s4 = rxDesc s" by (simp add: rxDesc_def)
  have ok4: "acks_ok (VanBusRx s4)" using ok p4 acks_ok_pool by blast
  have h4: "head (VanBusRx s4) < length (pool (VanBusRx s4))" using h p4 by simp
  have r5: "rxDesc s5 = (rxDesc s)\<lparr>slot := int (head (VanBusRx s))\<rparr>"
    using h4 by (simp add: s5_def rxDesc_onDesc r4 p4)
  have h5: "head (VanBusRx s5) = head (VanBusRx s)"
    "length (pool (VanBusRx s5)) = length (pool (VanBusRx s))"
    by (simp_all add: s5_def p4)
  have hh5: "head (VanBusRx s5) < length (pool (VanBusRx s5))" using h h5 by simp
  have a4: "ack (rxDesc s) = VAN_NO_ACK"
    if "state (rxDesc s) = VAN_RX_SEARCHING \<or> state (rxDesc s) = VAN_RX_LOADING"
    using that ok h unfolding acks_ok_def rxDesc_def by blast
  have ok5: "acks_ok (VanBusRx s5)"
    unfolding s5_def using ok4
    by (rule acks_ok_onDesc) (simp add: r4 a4)
  have a5: "ack (rxDesc s5) = VAN_NO_ACK"
    if "state (rxDesc s) = VAN_RX_SEARCHING \<or> state (rxDesc s) = VAN_RX_LOADING"
    using a4 [OF that] by (simp add: r5)
  have e0: "RxPinChangeIsr cfg lvl c s =
    (let st = state (rxDesc s4) in
         if st = VAN_RX_VACANT then
              (if lvl = VAN_LOGICAL_LOW then
                 (onDesc (\<lambda>d. d\<lparr>state := VAN_RX_SEARCHING, ack := VAN_NO_ACK,
                                  size' := 0\<rparr>) s5)\<lparr>atBit := 0, readBits := 0\<rparr>
               else s5)
            else if st = VAN_RX_WAITING_ACK then
              onDesc (\<lambda>d. d\<lparr>ack := VAN_ACK\<rparr>) s5
            else if st \<noteq> VAN_RX_SEARCHING \<and> st \<noteq> VAN_RX_LOADING then
              onQueue (\<lambda>q. q\<lparr>overrun := True\<rparr>) s5
            else if fst nb > 9 then
              (if st = VAN_RX_SEARCHING then
                 (onDesc (\<lambda>d. d\<lparr>size' := 0\<rparr>) s5)\<lparr>atBit := 0, readBits := 0\<rparr>
               else
                 onQueue AdvanceHead (onDesc (\<lambda>d. d\<lparr>result := VAN_RX_ERROR_NBITS\<rparr>) s5))
            else isr_decode cfg lvl (fst nb) st s5)"
    using False by (simp add: RxPinChangeIsr_def Let_def s2_def nb_def s4_def s5_def)
  note e = e0 [unfolded r4]
  note dec = isr_decode_slot [OF hh5, of cfg lvl "fst nb" "state (rxDesc s)", unfolded h5]
  have slot5: "pool (VanBusRx (onDesc f s5)) ! head (VanBusRx s) = f (rxDesc s5)" for f
    using hh5 h5 by (simp add: onDesc_def onQueue_def rxDesc_def)
  have slot5': "pool (VanBusRx s5) ! head (VanBusRx s) = rxDesc s5"
    using h5 by (simp add: rxDesc_def)
  have adv: "pool (VanBusRx (onQueue AdvanceHead t)) ! head (VanBusRx t)
             = (rxDesc t)\<lparr>state := VAN_RX_DONE\<rparr>"
    if "head (VanBusRx t) < length (pool (VanBusRx t))" for t
    using that by (simp add: onQueue_def AdvanceHead_def rxDesc_def)
  let ?r = "RxPinChangeIsr cfg lvl c s"
  let ?old = "pool (VanBusRx ?r) ! head (VanBusRx s)"
  have k1: "acks_ok (VanBusRx (onDesc (\<lambda>d. d\<lparr>state := VAN_RX_SEARCHING, ack := VAN_NO_ACK,
                                  size' := 0\<rparr>) s5))"
    using ok5 by (rule acks_ok_onDesc) simp
  have k2: "acks_ok (VanBusRx (onDesc (\<lambda>d. d\<lparr>ack := VAN_ACK\<rparr>) s5))"
    if "state (rxDesc s) = VAN_RX_WAITING_ACK"
    using ok5 by (rule acks_ok_onDesc) (simp add: r5 that)
  have k3: "acks_ok (VanBusRx (onQueue (\<lambda>q. q\<lparr>overrun := True\<rparr>) s5))"
    using ok5 by (simp add: acks_ok_queue_fields)
  have k4: "acks_ok (VanBusRx (onDesc (\<lambda>d. d\<lparr>size' := 0\<rparr>) s5))"
    if "state (rxDesc s) = VAN_RX_SEARCHING"
    using ok5 by (rule acks_ok_onDesc) (simp add: r5 a4 that)
  have k5: "acks_ok (VanBusRx (onQueue AdvanceHead
              (onDesc (\<lambda>d. d\<lparr>result := VAN_RX_ERROR_NBITS\<rparr>) s5)))"
    if "state (rxDesc s) = VAN_RX_LOADING"
  proof (rule acks_ok_AdvanceHead)
    show "acks_ok (VanBusRx (onDesc (\<lambda>d. d\<lparr>result := VAN_RX_ERROR_NBITS\<rparr>) s5))"
      using ok5 by (rule acks_ok_onDesc) (simp add: r5 a4 that)
  qed
  have k6: "acks_ok (VanBusRx (isr_decode cfg lvl (fst nb) (state (rxDesc s)) s5))"
    if "state (rxDesc s) = VAN_RX_SEARCHING \<or> state (rxDesc s) = VAN_RX_LOADING"
    using dec ok5 a5 [OF that] by simp
  have ok_r: "acks_ok (VanBusRx ?r)"
  proof (cases "state (rxDesc s)")
    case VAN_RX_VACANT
    then show ?thesis using k1 ok5 by (simp add: e)
  next
    case VAN_RX_SEARCHING
    then show ?thesis using k4 k6 by (simp add: e)
  next
    case VAN_RX_LOADING
    then show ?thesis using k5 k6 by (simp add: e)
  next
    case VAN_RX_WAITING_ACK
    then show ?thesis using k2 by (simp add: e)
  next
    case VAN_RX_DONE
    then show ?thesis using k3 by (simp add: e)
  qed
  have enter: "head (VanBusRx ?r) = head (VanBusRx s) \<and> ack ?old = VAN_NO_ACK"
    if n: "state (rxDesc s) \<noteq> VAN_RX_WAITING_ACK" and w: "state ?old = VAN_RX_WAITING_ACK"
  proof (cases "state (rxDesc s)")
    case VAN_RX_VACANT
    then have "state ?old \<noteq> VAN_RX_WAITING_ACK"
      by (simp add: e slot5 slot5' r5)
    then show ?thesis using w by simp
  next
    case VAN_RX_DONE
    then have "state ?old \<noteq> VAN_RX_WAITING_ACK"
      by (simp add: e onQueue_def slot5' r5)
    then show ?thesis using w by simp
  next
    case VAN_RX_WAITING_ACK
    then show ?thesis using n by simp
  next
    case VAN_RX_SEARCHING
    show ?thesis
    proof (cases "9 < fst nb")
      case True
      then have "state ?old \<noteq> VAN_RX_WAITING_ACK"
        using VAN_RX_SEARCHING by (simp add: e slot5 r5)
      then show ?thesis using w by simp
    next
      case False
      then have ee: "?r = isr_decode cfg lvl (fst nb) (state (rxDesc s)) s5"
        using VAN_RX_SEARCHING by (simp add: e)
      show ?thesis
        using w dec a5 VAN_RX_SEARCHING unfolding ee by simp
    qed
  next
    case VAN_RX_LOADING
    show ?thesis
    proof (cases "9 < fst nb")
      case True
      have "?old = (rxDesc (onDesc (\<lambda>d. d\<lparr>result := VAN_RX_ERROR_NBITS\<rparr>) s5))
                     \<lparr>state := VAN_RX_DONE\<rparr>"
        using True VAN_RX_LOADING hh5
          adv [of "onDesc (\<lambda>d. d\<lparr>result := VAN_RX_ERROR_NBITS\<rparr>) s5"] h5
        by (simp add: e)
      then have "state ?old \<noteq> VAN_RX_WAITING_ACK" by simp
      then show ?thesis using w by simp
    next
      case False
      then have ee: "?r = isr_decode cfg lvl (fst nb) (state (rxDesc s)) s5"
        using VAN_RX_LOADING by (simp add: e)
      show ?thesis
        using w dec a5 VAN_RX_LOADING unfolding ee by simp
    qed
  qed
  show ?thesis
    using ok_r enter by simp
qed

lemma Receive_acks_ok:
  assumes "acks_ok q"
  shows "acks_ok (snd (snd (snd (Receive pkt ov q))))"
proof (cases "Available q")
  case False
  then show ?thesis using assms by (simp add: Receive_def)
next
  case True
  then have p: "pool (snd (snd (snd (Receive pkt ov q))))
                 = (pool q)[tail q := Init (pool q ! tail q)]"
    by (simp add: Receive_def Let_def AdvanceTail_def ClearQueueOverrun_def
        split: option.splits)
  show ?thesis
    unfolding acks_ok_def p
  proof (intro allI impI)
    fix i
    assume i: "i < length ((pool q)[tail q := Init (pool q ! tail q)])"
      and st: "state ((pool q)[tail q := Init (pool q ! tail q)] ! i) = VAN_RX_SEARCHING \<or>
               state ((pool q)[tail q := Init (pool q ! tail q)] ! i) = VAN_RX_LOADING"
    show "ack ((pool q)[tail q := Init (pool q ! tail q)] ! i) = VAN_NO_ACK"
    proof (cases "i = tail q")
      case True
      then show ?thesis using i st by (simp add: Init_def)
    next
      case False
      then show ?thesis using i st assms by (auto simp: acks_ok_def)
    qed
  qed
qed

lemma initial_acks_ok: "initial_state s \<Longrightarrow> acks_ok (VanBusRx s)"
  by (simp add: initial_state_def acks_ok_def)

lemma reachable_acks_ok: "reachable cfg s \<Longrightarrow> acks_ok (VanBusRx s)"
proof (induction rule: reachable.induct)
  case (reach_init s)
  then show ?case by (rule initial_acks_ok)
next
  case (reach_pin s pinLevelChangedTo curr')
  have "head (VanBusRx s) < length (pool (VanBusRx s))"
    using reachable_slots_ok [OF reach_pin.hyps] by (simp add: slots_ok_def)
  then show ?case
    using RxPinChangeIsr_acks [OF _ reach_pin.IH] by simp
next
  case (reach_timeout s)
  then show ?case by (simp add: WaitAckIsr_def acks_ok_AdvanceHead)
next
  case (reach_receive s pkt isQueueOverrun)
  then show ?case by (simp add: Receive_acks_ok)
qed

lemma Receive_keeps_head:
  assumes "state (pool q ! head q) \<noteq> VAN_RX_DONE"
  shows "head (snd (snd (snd (Receive pkt ov q)))) = head q \<and>
         pool (snd (snd (snd (Receive pkt ov q)))) ! head q = pool q ! head q"
proof (cases "Available q")
  case False
  then show ?thesis by (simp add: Receive_def)
next
  case True
  then have "tail q \<noteq> head q" using assms by (auto simp: Available_def)
  then show ?thesis
    using True
    by (simp add: Receive_def Let_def AdvanceTail_def ClearQueueOverrun_def
        split: option.splits)
qed

lemma no_ack_bit_yet_inv:
  "no_ack_bit_yet cfg s \<Longrightarrow>
   reachable cfg s \<and> state (rxDesc s) = VAN_RX_WAITING_ACK \<and> ack (rxDesc s) = VAN_NO_ACK"
proof (induction rule: no_ack_bit_yet.induct)
  case (wait_enter s pinLevelChangedTo curr')
  let ?r = "RxPinChangeIsr cfg pinLevelChangedTo curr' s"
  have h: "head (VanBusRx s) < length (pool (VanBusRx s))"
    using reachable_slots_ok [OF wait_enter(1)] by (simp add: slots_ok_def)
  have ok: "acks_ok (VanBusRx s)" using wait_enter(1) by (rule reachable_acks_ok)
  have e: "head (VanBusRx ?r) = head (VanBusRx s)"
    "ack (pool (VanBusRx ?r) ! head (VanBusRx s)) = VAN_NO_ACK"
    using RxPinChangeIsr_acks [OF h ok, of cfg pinLevelChangedTo curr'] wait_enter(2,3)
    by simp_all
  have "reachable cfg ?r" using wait_enter(1) by (rule reach_pin)
  then show ?case
    using e wait_enter(3) by (simp add: rxDesc_def)
next
  case (wait_spurious s curr')
  then show ?case by (simp add: RxPinChangeIsr_def)
next
  case (wait_receive s pkt isQueueOverrun)
  have n: "state (pool (VanBusRx s) ! head (VanBusRx s)) \<noteq> VAN_RX_DONE"
    using wait_receive.IH by (simp add: rxDesc_def)
  have "reachable cfg (s\<lparr>VanBusRx := snd (snd (snd (Receive pkt isQueueOverrun (VanBusRx s))))\<rparr>)"
    using wait_receive.IH by (simp add: reach_receive)
  then show ?case
    using Receive_keeps_head [OF n, of pkt isQueueOverrun] wait_receive.IH
    by (simp add: rxDesc_def)
qed

lemma example_last_unit_reachable: "reachable example_cfg example_last_unit"
  unfolding example_last_unit_def example_loading_def
  by (intro reach_pin reach_init example_initial_ok)

lemma example_last_unit_simps:
  "state (rxDesc example_last_unit) = VAN_RX_LOADING"
  "head (VanBusRx example_last_unit) = 0"
  by code_simp+

lemma example_waiting_simps:
  "head (VanBusRx example_waiting) = 0"
  "length (pool (VanBusRx example_waiting)) = 1"
  "size' (rxDesc example_waiting) = 2"
  "state (pool (VanBusRx example_waiting) ! 0) = VAN_RX_WAITING_ACK"
  by code_simp+

text \<open>
  C2, as the claim states it, fails: a pin edge in the state WAITING_ACK does not complete
  the frame. After the edge the head descriptor is still WAITING_ACK, not DONE, and the
  head has not moved.
\<close>

theorem waiting_ack_pin_edge_counterexample:
  "state (rxDesc (RxPinChangeIsr example_cfg 0 1000 (example_head_state VAN_RX_WAITING_ACK)))
     = VAN_RX_WAITING_ACK \<and>
   head (VanBusRx (RxPinChangeIsr example_cfg 0 1000 (example_head_state VAN_RX_WAITING_ACK)))
     = head (VanBusRx (example_head_state VAN_RX_WAITING_ACK)) \<and>
   state (pool (VanBusRx
       (RxPinChangeIsr example_cfg 0 1000 (example_head_state VAN_RX_WAITING_ACK))) ! 0)
     \<noteq> VAN_RX_DONE"
  by (simp add: RxPinChangeIsr_def Let_def rxDesc_def onDesc_def onQueue_def
      example_head_state_def example_state_def example_queue_def example_desc_def
      example_cfg_def VAN_BIT_RECESSIVE_def VAN_LOGICAL_HIGH_def VAN_LOGICAL_LOW_def)

text \<open>
  C2, amended. For every head descriptor in the state WAITING_ACK, a pin edge only records
  the acknowledgement: it sets ack to ACK and leaves the descriptor WAITING_ACK and the
  head where it is. The timeout alone completes the frame: \<^verbatim>\<open>WaitAckIsr\<close> marks the
  slot DONE, keeps its ack and promotes the next pool slot to be the head. The ack that
  it keeps is ACK after a pin edge and NONE when no bit was observed: whenever a pin
  interrupt in a reachable state puts the head descriptor into the state WAITING_ACK, the
  head stays where it is and the descriptor has ack NONE; and in every state in which no
  acknowledge bit has been observed yet, the head descriptor is WAITING_ACK with ack NONE,
  and the timeout marks it DONE with ack NONE.
\<close>

theorem waiting_ack_completion:
  "(state (rxDesc s) = VAN_RX_WAITING_ACK \<and> head (VanBusRx s) < length (pool (VanBusRx s)) \<longrightarrow>
      (pinLevelChangedTo \<noteq> prevPinLevelChangedTo s \<longrightarrow>
         (let s1 = RxPinChangeIsr cfg pinLevelChangedTo curr' s;
              s2 = WaitAckIsr s1
          in head (VanBusRx s1) = head (VanBusRx s) \<and>
             state (rxDesc s1) = VAN_RX_WAITING_ACK \<and>
             ack (rxDesc s1) = VAN_ACK \<and>
             state (pool (VanBusRx s2) ! head (VanBusRx s)) = VAN_RX_DONE \<and>
             ack (pool (VanBusRx s2) ! head (VanBusRx s)) = VAN_ACK \<and>
             head (VanBusRx s2)
               = (head (VanBusRx s) + 1) mod length (pool (VanBusRx s)))) \<and>
      (let s2 = WaitAckIsr s
       in state (pool (VanBusRx s2) ! head (VanBusRx s)) = VAN_RX_DONE \<and>
          ack (pool (VanBusRx s2) ! head (VanBusRx s)) = ack (rxDesc s) \<and>
          head (VanBusRx s2) = (head (VanBusRx s) + 1) mod length (pool (VanBusRx s)))) \<and>
   (reachable cfg s \<and> state (rxDesc s) \<noteq> VAN_RX_WAITING_ACK \<and>
    state (pool (VanBusRx (RxPinChangeIsr cfg pinLevelChangedTo curr' s)) ! head (VanBusRx s))
      = VAN_RX_WAITING_ACK \<longrightarrow>
      head (VanBusRx (RxPinChangeIsr cfg pinLevelChangedTo curr' s)) = head (VanBusRx s) \<and>
      ack (rxDesc (RxPinChangeIsr cfg pinLevelChangedTo curr' s)) = VAN_NO_ACK \<and>
      no_ack_bit_yet cfg (RxPinChangeIsr cfg pinLevelChangedTo curr' s)) \<and>
   (no_ack_bit_yet cfg s \<longrightarrow>
      reachable cfg s \<and>
      state (rxDesc s) = VAN_RX_WAITING_ACK \<and>
      ack (rxDesc s) = VAN_NO_ACK \<and>
      (let s2 = WaitAckIsr s
       in state (pool (VanBusRx s2) ! head (VanBusRx s)) = VAN_RX_DONE \<and>
          ack (pool (VanBusRx s2) ! head (VanBusRx s)) = VAN_NO_ACK \<and>
          head (VanBusRx s2) = (head (VanBusRx s) + 1) mod length (pool (VanBusRx s))))"
proof (intro conjI impI)
  assume "state (rxDesc s) = VAN_RX_WAITING_ACK \<and> head (VanBusRx s) < length (pool (VanBusRx s))"
    and "pinLevelChangedTo \<noteq> prevPinLevelChangedTo s"
  then show "let s1 = RxPinChangeIsr cfg pinLevelChangedTo curr' s;
              s2 = WaitAckIsr s1
          in head (VanBusRx s1) = head (VanBusRx s) \<and>
             state (rxDesc s1) = VAN_RX_WAITING_ACK \<and>
             ack (rxDesc s1) = VAN_ACK \<and>
             state (pool (VanBusRx s2) ! head (VanBusRx s)) = VAN_RX_DONE \<and>
             ack (pool (VanBusRx s2) ! head (VanBusRx s)) = VAN_ACK \<and>
             head (VanBusRx s2)
               = (head (VanBusRx s) + 1) mod length (pool (VanBusRx s))"
    by (simp add: RxPinChangeIsr_def WaitAckIsr_def Let_def rxDesc_def onDesc_def onQueue_def
        AdvanceHead_def)
next
  assume "state (rxDesc s) = VAN_RX_WAITING_ACK \<and> head (VanBusRx s) < length (pool (VanBusRx s))"
  then show "let s2 = WaitAckIsr s
       in state (pool (VanBusRx s2) ! head (VanBusRx s)) = VAN_RX_DONE \<and>
          ack (pool (VanBusRx s2) ! head (VanBusRx s)) = ack (rxDesc s) \<and>
          head (VanBusRx s2) = (head (VanBusRx s) + 1) mod length (pool (VanBusRx s))"
    by (simp add: WaitAckIsr_def Let_def rxDesc_def onQueue_def AdvanceHead_def)
next
  let ?r = "RxPinChangeIsr cfg pinLevelChangedTo curr' s"
  assume e: "reachable cfg s \<and> state (rxDesc s) \<noteq> VAN_RX_WAITING_ACK \<and>
    state (pool (VanBusRx ?r) ! head (VanBusRx s)) = VAN_RX_WAITING_ACK"
  have h: "head (VanBusRx s) < length (pool (VanBusRx s))"
    using e reachable_slots_ok [of cfg s] by (simp add: slots_ok_def)
  have ok: "acks_ok (VanBusRx s)" using e reachable_acks_ok [of cfg s] by simp
  show "head (VanBusRx ?r) = head (VanBusRx s)"
    using RxPinChangeIsr_acks [OF h ok, of cfg pinLevelChangedTo curr'] e by simp
  have w: "no_ack_bit_yet cfg ?r"
    using e by (intro wait_enter) simp_all
  then show "no_ack_bit_yet cfg ?r" .
  show "ack (rxDesc ?r) = VAN_NO_ACK"
    using no_ack_bit_yet_inv [OF w] by simp
next
  assume w: "no_ack_bit_yet cfg s"
  note inv = no_ack_bit_yet_inv [OF w]
  show "reachable cfg s" "state (rxDesc s) = VAN_RX_WAITING_ACK" "ack (rxDesc s) = VAN_NO_ACK"
    using inv by simp_all
  have "head (VanBusRx s) < length (pool (VanBusRx s))"
    using inv reachable_slots_ok [of cfg s] by (simp add: slots_ok_def)
  then show "let s2 = WaitAckIsr s
       in state (pool (VanBusRx s2) ! head (VanBusRx s)) = VAN_RX_DONE \<and>
          ack (pool (VanBusRx s2) ! head (VanBusRx s)) = VAN_NO_ACK \<and>
          head (VanBusRx s2) = (head (VanBusRx s) + 1) mod length (pool (VanBusRx s))"
    using inv by (simp add: WaitAckIsr_def Let_def rxDesc_def onQueue_def AdvanceHead_def)
qed

theorem waiting_ack_completion_witness:
  "state (rxDesc (example_head_state VAN_RX_WAITING_ACK)) = VAN_RX_WAITING_ACK \<and>
   head (VanBusRx (example_head_state VAN_RX_WAITING_ACK))
     < length (pool (VanBusRx (example_head_state VAN_RX_WAITING_ACK))) \<and>
   0 \<noteq> prevPinLevelChangedTo (example_head_state VAN_RX_WAITING_ACK) \<and>
   ack (rxDesc (RxPinChangeIsr example_cfg 0 1000 (example_head_state VAN_RX_WAITING_ACK)))
     = VAN_ACK \<and>
   state (pool (VanBusRx (WaitAckIsr
       (RxPinChangeIsr example_cfg 0 1000 (example_head_state VAN_RX_WAITING_ACK)))) ! 0)
     = VAN_RX_DONE \<and>
   ack (pool (VanBusRx (WaitAckIsr
       (RxPinChangeIsr example_cfg 0 1000 (example_head_state VAN_RX_WAITING_ACK)))) ! 0)
     = VAN_ACK \<and>
   state (pool (VanBusRx (WaitAckIsr (example_head_state VAN_RX_WAITING_ACK))) ! 0)
     = VAN_RX_DONE \<and>
   ack (pool (VanBusRx (WaitAckIsr (example_head_state VAN_RX_WAITING_ACK))) ! 0)
     = VAN_NO_ACK \<and>
   head (VanBusRx (WaitAckIsr (example_head_state VAN_RX_WAITING_ACK))) = 1 \<and>
   reachable example_cfg example_last_unit \<and>
   state (rxDesc example_last_unit) = VAN_RX_LOADING \<and>
   example_waiting = RxPinChangeIsr example_cfg 1 13800 example_last_unit \<and>
   no_ack_bit_yet example_cfg example_waiting \<and>
   size' (rxDesc example_waiting) = 2 \<and>
   state (rxDesc example_waiting) = VAN_RX_WAITING_ACK \<and>
   ack (rxDesc example_waiting) = VAN_NO_ACK \<and>
   state (pool (VanBusRx (WaitAckIsr example_waiting)) ! 0) = VAN_RX_DONE \<and>
   ack (pool (VanBusRx (WaitAckIsr example_waiting)) ! 0) = VAN_NO_ACK \<and>
   head (VanBusRx (WaitAckIsr example_waiting)) = 0"
proof -
  have enter: "no_ack_bit_yet example_cfg example_waiting"
    using waiting_ack_completion [of example_last_unit 1 example_cfg 13800]
    by (simp add: example_last_unit_reachable example_last_unit_simps example_waiting_simps
        example_waiting_def [symmetric])
  show ?thesis
    using waiting_ack_completion
        [of "example_head_state VAN_RX_WAITING_ACK" 0 example_cfg 1000]
      waiting_ack_completion [of example_waiting 0 example_cfg 0] enter
    by (simp add: example_head_state_simps example_waiting_simps Let_def
        example_last_unit_reachable example_last_unit_simps example_waiting_def [symmetric])
qed

section \<open>The CRC round trip\<close>

subsection \<open>The register is linear in its input\<close>

text \<open>
  One step of the register is linear over XOR in the register and the input bit, and the
  step under a zero input bit is injective. A wrong input bit therefore changes the final
  register by a syndrome that depends only on the number of bits that follow it.
\<close>

lemma spec_crc_bit_linear:
  "spec_crc_bit (r XOR d) (x \<noteq> y) = spec_crc_bit r x XOR spec_crc_bit d y"
  unfolding spec_crc_bit_def
  by (rule bit_word_eqI) (auto simp: bit_simps bit_word_times_2)

lemma spec_crc_run_linear:
  "length xs = length ys \<Longrightarrow>
   spec_crc_run (r XOR d) (map2 (\<noteq>) xs ys) = spec_crc_run r xs XOR spec_crc_run d ys"
proof (induction xs ys arbitrary: r d rule: list_induct2)
  case Nil
  then show ?case by (simp add: spec_crc_run_def)
next
  case (Cons x xs y ys)
  then show ?case
    using spec_crc_bit_linear [of r d x y]
    by (simp add: spec_crc_run_def)
qed

lemma spec_crc_bit_zero: "spec_crc_bit 0 False = 0"
  by (simp add: spec_crc_bit_def)

lemma spec_crc_run_zero: "spec_crc_run 0 (replicate n False) = 0"
  by (induction n) (simp_all add: spec_crc_run_def spec_crc_bit_zero)

lemma spec_crc_bit_inj:
  assumes "spec_crc_bit r False = spec_crc_bit r' False"
  shows "r = r'"
proof -
  have b0: "bit (spec_crc_bit x False) 0 = bit x 14" for x
    by (simp add: spec_crc_bit_def bit_simps bit_word_times_2)
  have bn: "bit x n = (bit (spec_crc_bit x False) (Suc n) \<noteq> (bit x 14 \<and> bit (0x0F9D :: 15 word) (Suc n)))"
    if "n < 14" for x n
    using that by (auto simp add: spec_crc_bit_def bit_simps bit_word_times_2)
  have t: "bit r 14 = bit r' 14" using b0 [of r] b0 [of r'] assms by simp
  show ?thesis
  proof (rule bit_word_eqI)
    fix n assume "n < LENGTH(15)"
    then have "n < 14 \<or> n = 14" by auto
    then show "bit r n = bit r' n"
      using t bn [of n r] bn [of n r'] assms by auto
  qed
qed

lemma spec_crc_run_inj:
  "spec_crc_run r (replicate n False) = spec_crc_run r' (replicate n False) \<Longrightarrow> r = r'"
proof (induction n arbitrary: r r')
  case 0
  then show ?case by (simp add: spec_crc_run_def)
next
  case (Suc n)
  then have "spec_crc_bit r False = spec_crc_bit r' False"
    by (simp add: spec_crc_run_def)
  then show ?case by (rule spec_crc_bit_inj)
qed

text \<open>
  Under zero input the register does not come back to the polynomial within 1784 steps,
  so that the syndromes of the bit positions of a frame of up to 224 bytes differ from
  each other; none of them is zero.
\<close>

lemma period_free_1784: "period_free 1784 0x0F9D"
  by code_simp

lemma period_free_run:
  "period_free n r \<Longrightarrow> 0 < k \<Longrightarrow> k \<le> n \<Longrightarrow> spec_crc_run r (replicate k False) \<noteq> 0x0F9D"
proof (induction n arbitrary: r k)
  case 0
  then show ?case by simp
next
  case (Suc n)
  obtain j where k: "k = Suc j" using Suc.prems(2) by (cases k) auto
  have pf: "period_free n (spec_crc_bit r False)" and ne: "spec_crc_bit r False \<noteq> 0x0F9D"
    using Suc.prems(1) by (simp_all add: Let_def)
  show ?case
  proof (cases "j = 0")
    case True
    then show ?thesis using ne k by (simp add: spec_crc_run_def)
  next
    case False
    then have "spec_crc_run (spec_crc_bit r False) (replicate j False) \<noteq> 0x0F9D"
      using Suc.IH [OF pf, of j] Suc.prems(3) k by simp
    then show ?thesis using k by (simp add: spec_crc_run_def)
  qed
qed

lemma syndrome_nonzero: "syndrome p \<noteq> 0"
proof
  assume "syndrome p = 0"
  then have "spec_crc_run 0x0F9D (replicate p False) = spec_crc_run 0 (replicate p False)"
    by (simp add: syndrome_def spec_crc_run_zero)
  then have "(0x0F9D :: 15 word) = 0" by (rule spec_crc_run_inj)
  then show False by simp
qed

lemma syndrome_less_neq:
  assumes "p < p'" "p' < 1785"
  shows "syndrome p \<noteq> syndrome p'"
proof
  assume e: "syndrome p = syndrome p'"
  have "replicate p' False = replicate (p' - p) False @ replicate p False"
    using assms(1) by (simp flip: replicate_add)
  then have "syndrome p' = spec_crc_run (syndrome (p' - p)) (replicate p False)"
    by (simp add: syndrome_def spec_crc_run_append)
  then have "spec_crc_run 0x0F9D (replicate p False)
             = spec_crc_run (syndrome (p' - p)) (replicate p False)"
    using e by (simp add: syndrome_def)
  then have "0x0F9D = syndrome (p' - p)" by (rule spec_crc_run_inj)
  moreover have "syndrome (p' - p) \<noteq> 0x0F9D"
    unfolding syndrome_def using assms
    by (intro period_free_run [OF period_free_1784]) auto
  ultimately show False by simp
qed

lemma syndrome_inj: "p < 1785 \<Longrightarrow> p' < 1785 \<Longrightarrow> syndrome p = syndrome p' \<Longrightarrow> p = p'"
  by (metis syndrome_less_neq linorder_neqE_nat)

lemma spec_crc_run_one_hot:
  "spec_crc_run 0 (replicate a False @ True # replicate p False) = syndrome p"
proof -
  have "spec_crc_bit 0 True = 0x0F9D" by (simp add: spec_crc_bit_def)
  then show ?thesis
    by (simp add: spec_crc_run_append spec_crc_run_zero syndrome_def)
       (simp add: spec_crc_run_def)
qed

text \<open>The bits of a frame in which one bit of one byte is flipped.\<close>

lemma frame_bits_simps [simp]:
  "frame_bits [] = []"
  "frame_bits (x # xs) = msb_first x @ frame_bits xs"
  by (simp_all add: frame_bits_def)

lemma length_msb_first [simp]: "length (msb_first x) = 8"
  by (simp add: msb_first_def)

lemma length_frame_bits [simp]: "length (frame_bits xs) = 8 * length xs"
  by (induction xs) simp_all

lemma msb_first_xor: "msb_first (a XOR b) = map2 (\<noteq>) (msb_first a) (msb_first b)"
  by (simp add: msb_first_def bit_xor_iff)

lemma msb_first_one_hot:
  assumes "k < 8"
  shows "msb_first (2 ^ k) = replicate (7 - k) False @ True # replicate k False"
proof -
  have "k = 0 \<or> k = 1 \<or> k = 2 \<or> k = 3 \<or> k = 4 \<or> k = 5 \<or> k = 6 \<or> k = 7"
    using assms by arith
  then show ?thesis
    by (elim disjE) (simp_all add: msb_first_def numeral_eq_Suc)
qed

lemma map2_neq_False: "n = length xs \<Longrightarrow> map2 (\<noteq>) xs (replicate n False) = xs"
  by (induction xs arbitrary: n) auto

lemma map2_append:
  "length xs = length us \<Longrightarrow> map2 f (xs @ ys) (us @ vs) = map2 f xs us @ map2 f ys vs"
  by simp

lemma frame_bits_update:
  "i < length xs \<Longrightarrow>
   frame_bits (xs[i := xs ! i XOR e])
     = map2 (\<noteq>) (frame_bits xs)
         (replicate (8 * i) False @ msb_first e @ replicate (8 * (length xs - 1 - i)) False)"
proof (induction xs arbitrary: i)
  case Nil
  then show ?case by simp
next
  case (Cons x xs)
  show ?case
  proof (cases i)
    case 0
    have "map2 (\<noteq>) (msb_first x @ frame_bits xs)
            (msb_first e @ replicate (8 * length xs) False)
          = map2 (\<noteq>) (msb_first x) (msb_first e)
              @ map2 (\<noteq>) (frame_bits xs) (replicate (8 * length xs) False)"
      by (rule map2_append) simp
    also have "\<dots> = msb_first (x XOR e) @ frame_bits xs"
      by (simp only: msb_first_xor map2_neq_False [OF length_frame_bits [symmetric]])
    finally show ?thesis
      using 0 by simp
  next
    case (Suc j)
    have j: "j < length xs" using Cons.prems Suc by simp
    have r: "replicate (8 * Suc j) False = replicate 8 False @ replicate (8 * j) False"
      by (simp flip: replicate_add)
    let ?t = "replicate (8 * j) False @ msb_first e @ replicate (8 * (length xs - 1 - j)) False"
    have "map2 (\<noteq>) (msb_first x @ frame_bits xs) (replicate 8 False @ ?t)
          = map2 (\<noteq>) (msb_first x) (replicate 8 False) @ map2 (\<noteq>) (frame_bits xs) ?t"
      by (rule map2_append) simp
    also have "\<dots> = msb_first x @ frame_bits (xs[j := xs ! j XOR e])"
      by (simp only: Cons.IH [OF j] map2_neq_False [OF length_msb_first [symmetric]])
    finally show ?thesis
      using Suc by (simp only: r) simp
  qed
qed

lemma spec_crc_run_flip:
  assumes "i < length xs" "k < 8"
  shows "spec_crc_run r (frame_bits (xs[i := xs ! i XOR 2 ^ k]))
       = spec_crc_run r (frame_bits xs) XOR syndrome (k + 8 * (length xs - 1 - i))"
proof -
  let ?e = "replicate (8 * i) False @ msb_first (2 ^ k)
              @ replicate (8 * (length xs - 1 - i)) False"
  have len: "length (frame_bits xs) = length ?e"
    using assms by simp
  have e: "?e = replicate (8 * i + (7 - k)) False
                  @ True # replicate (k + 8 * (length xs - 1 - i)) False"
    using assms(2) by (simp add: msb_first_one_hot flip: replicate_add)
  have "spec_crc_run r (frame_bits (xs[i := xs ! i XOR 2 ^ k]))
        = spec_crc_run (r XOR 0) (map2 (\<noteq>) (frame_bits xs) ?e)"
    using assms(1) by (simp only: frame_bits_update) simp
  also have "\<dots> = spec_crc_run r (frame_bits xs) XOR spec_crc_run 0 ?e"
    using len by (rule spec_crc_run_linear)
  also have "spec_crc_run 0 ?e = syndrome (k + 8 * (length xs - 1 - i))"
    unfolding e by (rule spec_crc_run_one_hot)
  finally show ?thesis .
qed

subsection \<open>A frame with a valid trailer passes\<close>

text \<open>
  Fed with its own 15 bits, the register becomes zero. The trailer holds the inverted
  register followed by a zero bit, so the run over the trailer ends in the register that
  15 one bits and a zero bit give from zero, which is \<open>0x19B7\<close>.
\<close>

lemma self_feed_step:
  "k \<le> 14 \<Longrightarrow> spec_crc_bit (push_bit k r) (bit r (14 - k)) = push_bit (Suc k) r"
  by (simp only: spec_crc_bit_def bit_push_bit_iff push_bit_push_bit) (simp add: bit_simps)

lemma self_feed_prefix:
  "k \<le> 15 \<Longrightarrow> spec_crc_run r (map (\<lambda>i. bit r (14 - i)) [0..<k]) = push_bit k r"
proof (induction k)
  case 0
  then show ?case by (simp add: spec_crc_run_def)
next
  case (Suc k)
  then have "spec_crc_run r (map (\<lambda>i. bit r (14 - i)) [0..<Suc k])
             = spec_crc_bit (push_bit k r) (bit r (14 - k))"
    by (simp add: spec_crc_run_def)
  then show ?case using Suc.prems by (simp only: self_feed_step)
qed

lemma downto_14: "map f [14, 13, 12, 11, 10, 9, 8, 7, 6, 5, 4, 3, 2, 1, 0 :: nat]
                  = map (\<lambda>i. f (14 - i)) [0..<15]"
  by (simp add: upt_rec)

lemma self_feed: "spec_crc_run r (map (bit r) [14, 13, 12, 11, 10, 9, 8, 7, 6, 5, 4, 3, 2, 1, 0]) = 0"
proof -
  have "push_bit 15 r = 0" by (rule bit_word_eqI) (simp add: bit_simps)
  then show ?thesis
    using self_feed_prefix [of 15 r] by (simp only: downto_14)
qed

lemma ones_run: "spec_crc_bit (spec_crc_run 0 (replicate 15 True)) False = 0x19B7"
  by code_simp

lemma map_not_map2:
  "n = length L \<Longrightarrow> map (\<lambda>j. \<not> f j) L = map2 (\<noteq>) (map f L) (replicate n True)"
  by (induction L arbitrary: n) auto

lemma inverted_feed:
  "spec_crc_run r (map (\<lambda>j. \<not> bit r j) [14, 13, 12, 11, 10, 9, 8, 7, 6, 5, 4, 3, 2, 1, 0] @ [False])
   = 0x19B7"
proof -
  let ?L = "[14, 13, 12, 11, 10, 9, 8, 7, 6, 5, 4, 3, 2, 1, 0 :: nat]"
  have "map (\<lambda>j. \<not> bit r j) ?L = map2 (\<noteq>) (map (bit r) ?L) (replicate 15 True)"
    by (rule map_not_map2) simp
  then have "spec_crc_run r (map (\<lambda>j. \<not> bit r j) ?L)
        = spec_crc_run (r XOR 0) (map2 (\<noteq>) (map (bit r) ?L) (replicate 15 True))"
    by simp
  also have "\<dots> = spec_crc_run r (map (bit r) ?L) XOR spec_crc_run 0 (replicate 15 True)"
    by (rule spec_crc_run_linear) simp
  also have "\<dots> = spec_crc_run 0 (replicate 15 True)"
    by (simp only: self_feed) simp
  finally have "spec_crc_run r (map (\<lambda>j. \<not> bit r j) ?L) = spec_crc_run 0 (replicate 15 True)" .
  then show ?thesis
    by (simp only: spec_crc_run_append) (simp add: spec_crc_run_def ones_run [unfolded spec_crc_run_def])
qed

lemma trailer_bits:
  fixes r :: "15 word"
  defines "w \<equiv> push_bit 1 (ucast (r XOR 0x7FFF) :: 16 word)"
  shows "msb_first (ucast (drop_bit 8 w)) @ msb_first (ucast w)
       = map (\<lambda>j. \<not> bit r j) [14, 13, 12, 11, 10, 9, 8, 7, 6, 5, 4, 3, 2, 1, 0] @ [False]"
  unfolding w_def
  by (simp add: msb_first_def bit_simps bit_word_times_2)

lemma spec_crc15_frame_bits: "spec_crc15 xs = spec_crc_run 0x7FFF (frame_bits xs)"
  by (simp add: spec_crc15_def frame_bits_def)

lemma frame_bits_append: "frame_bits (xs @ ys) = frame_bits xs @ frame_bits ys"
  by (simp add: frame_bits_def)

lemma CheckCrc_register:
  "size' d \<le> int (length (bytes d)) \<Longrightarrow> CheckCrc d \<longleftrightarrow> frame_register d = 0x19B7"
  unfolding frame_register_def by (rule CheckCrc_refines)

lemma frame_slice_snoc:
  assumes "0 \<le> lo" "lo \<le> hi" "hi < int (length bs)"
  shows "frame_slice bs lo (hi + 1) = frame_slice bs lo hi @ [bs ! nat hi]"
proof -
  have n: "nat hi < length bs" using assms by simp
  have s: "nat (hi + 1) = Suc (nat hi)" using assms by simp
  have "take (Suc (nat hi)) bs = take (nat hi) bs @ [bs ! nat hi]"
    using n by (rule take_Suc_conv_app_nth)
  then show ?thesis
    using assms by (simp add: frame_slice_def s)
qed

lemma valid_trailer_register:
  assumes "valid_crc_trailer d"
  shows "frame_register d = 0x19B7"
proof -
  let ?bs = "bytes d" and ?sz = "size' d"
  let ?r = "spec_crc15 (frame_slice ?bs 1 (?sz - 2))"
  let ?w = "push_bit 1 (ucast (?r XOR 0x7FFF)) :: 16 word"
  have sz: "3 \<le> ?sz" "?sz \<le> int (length ?bs)"
    using assms by (simp_all add: valid_crc_trailer_def)
  have w: "Crc d = ?w"
    unfolding Crc_def using sz by (intro crc_refines) simp
  have hi: "?bs ! nat (?sz - 2) = ucast (drop_bit 8 ?w)"
    and lo: "?bs ! nat (?sz - 1) = ucast ?w"
    using assms by (simp_all add: valid_crc_trailer_def w)
  have "frame_slice ?bs 1 ?sz = frame_slice ?bs 1 ((?sz - 1) + 1)" by simp
  also have "\<dots> = frame_slice ?bs 1 (?sz - 1) @ [?bs ! nat (?sz - 1)]"
    using sz by (intro frame_slice_snoc) simp_all
  also have "frame_slice ?bs 1 (?sz - 1) = frame_slice ?bs 1 ((?sz - 2) + 1)" by simp
  also have "\<dots> = frame_slice ?bs 1 (?sz - 2) @ [?bs ! nat (?sz - 2)]"
    using sz by (intro frame_slice_snoc) simp_all
  finally have "frame_slice ?bs 1 ?sz
      = frame_slice ?bs 1 (?sz - 2) @ [ucast (drop_bit 8 ?w), ucast ?w]"
    by (simp add: hi lo)
  then have "frame_register d
      = spec_crc_run ?r (msb_first (ucast (drop_bit 8 ?w)) @ msb_first (ucast ?w))"
    by (simp add: frame_register_def spec_crc15_frame_bits frame_bits_append spec_crc_run_append)
  then show ?thesis
    by (simp only: trailer_bits inverted_feed)
qed

text \<open>The register of a descriptor after the flip of one bit.\<close>

lemma flip_bit_at_fields [simp]:
  "size' (flip_bit_at d i k) = size' d"
  "length (bytes (flip_bit_at d i k)) = length (bytes d)"
  by (simp_all add: flip_bit_at_def)

lemma bits_after_flip [simp]: "bits_after (flip_bit_at d i k) j l = bits_after d j l"
  by (simp add: bits_after_def)

lemma flip_bit_at_twice:
  "0 \<le> i \<Longrightarrow> i < int (length (bytes d)) \<Longrightarrow> flip_bit_at (flip_bit_at d i k) i k = d"
  by (simp add: flip_bit_at_def xor.assoc)

lemma frame_register_flip:
  assumes "1 \<le> i" "i < size' d" "size' d \<le> int (length (bytes d))" "k < 8"
  shows "frame_register (flip_bit_at d i k) = frame_register d XOR syndrome (bits_after d i k)"
proof -
  let ?bs = "bytes d" and ?sl = "frame_slice (bytes d) 1 (size' d)"
  have len: "length ?sl = nat (size' d) - 1"
    using assms by (simp add: frame_slice_def)
  have i: "nat i - 1 < length ?sl" using assms len by simp
  have nth: "?sl ! (nat i - 1) = ?bs ! nat i"
    using assms by (simp add: frame_slice_def)
  have "frame_slice (?bs[nat i := ?bs ! nat i XOR 2 ^ k]) 1 (size' d)
        = ?sl[nat i - 1 := ?sl ! (nat i - 1) XOR 2 ^ k]"
    using assms by (simp add: frame_slice_def take_update_swap drop_update_swap nth)
  then have "frame_register (flip_bit_at d i k)
        = spec_crc_run 0x7FFF (frame_bits (?sl[nat i - 1 := ?sl ! (nat i - 1) XOR 2 ^ k]))"
    by (simp add: frame_register_def flip_bit_at_def spec_crc15_frame_bits)
  also have "\<dots> = spec_crc_run 0x7FFF (frame_bits ?sl)
                       XOR syndrome (k + 8 * (length ?sl - 1 - (nat i - 1)))"
    using i assms(4) by (rule spec_crc_run_flip)
  also have "k + 8 * (length ?sl - 1 - (nat i - 1)) = bits_after d i k"
    using assms by (simp add: len bits_after_def)
  finally show ?thesis
    by (simp add: frame_register_def spec_crc15_frame_bits)
qed

lemma frame_register_flip_first:
  "frame_register (flip_bit_at d 0 k) = frame_register d"
  by (simp add: frame_register_def flip_bit_at_def frame_slice_def take_update_swap
      drop_update_cancel)

lemma bits_after_bound:
  assumes "1 \<le> i" "i < size' d" "size' d \<le> 224" "k < 8"
  shows "bits_after d i k < 1785"
  using assms unfolding bits_after_def by simp

lemma digit_split: "k < 8 \<Longrightarrow> l < 8 \<Longrightarrow> k + 8 * a = l + 8 * b \<Longrightarrow> k = l \<and> a = (b :: nat)"
  by arith

lemma bits_after_inj:
  assumes "1 \<le> i" "i < size' d" "k < 8" "1 \<le> j" "j < size' d" "l < 8"
    and "bits_after d i k = bits_after d j l"
  shows "i = j \<and> k = l"
proof -
  let ?a = "nat (size' d) - 1 - nat i" and ?b = "nat (size' d) - 1 - nat j"
  have "k + 8 * ?a = l + 8 * ?b"
    using assms(7) by (simp add: bits_after_def)
  then have kl: "k = l" and ab: "?a = ?b"
    using assms(3,6) digit_split [of k l ?a ?b] by simp_all
  have "nat i < nat (size' d)" "nat j < nat (size' d)"
    using assms by simp_all
  then have "nat i = nat j" using ab by arith
  then have "i = j" using assms(1,4) by simp
  then show ?thesis using kl by simp
qed

subsection \<open>The repair loop\<close>

text \<open>
  When exactly one position makes \<^verbatim>\<open>CheckCrc\<close> pass, the loop skips every byte before
  it, every bit before it in its byte, and returns with that bit flipped.
\<close>

lemma xor_eq_self_iff: "a XOR s = a \<longleftrightarrow> s = (0 :: 'a::len word)"
  by (metis xor.assoc xor.left_neutral xor.right_neutral xor_self_eq)

lemma xor_xor_eq_self_iff: "(a XOR s) XOR t = a \<longleftrightarrow> s = (t :: 'a::len word)"
  by (metis xor.assoc xor.left_neutral xor.right_neutral xor_self_eq)

lemma repair_loop_miss_byte:
  assumes "0 \<le> a" "a < size' d" "size' d \<le> int (length (bytes d))"
    and miss: "\<And>l. l < 8 \<Longrightarrow> \<not> CheckCrc (flip_bit_at d a l)"
  shows "b \<le> 8 \<Longrightarrow> repair_loop d q a b = repair_loop d q (a + 1) 0"
proof (induction "8 - b" arbitrary: b)
  case 0
  then have "b = 8" by simp
  then show ?case
    using assms(2) by (subst repair_loop.simps) simp
next
  case (Suc n)
  then have b: "b < 8" by simp
  have undo: "flip_bit_at (flip_bit_at d a b) a b = d"
    using assms by (intro flip_bit_at_twice) simp_all
  have "repair_loop d q a b = repair_loop d q a (b + 1)"
    using assms(2) b miss [OF b] by (subst repair_loop.simps) (simp add: Let_def undo)
  also have "\<dots> = repair_loop d q (a + 1) 0"
    using Suc.hyps b by (intro Suc.hyps(1)) simp_all
  finally show ?case .
qed

lemma repair_loop_hit_byte:
  assumes "0 \<le> i" "i < size' d" "size' d \<le> int (length (bytes d))" "k < 8"
    and miss: "\<And>l. l < k \<Longrightarrow> \<not> CheckCrc (flip_bit_at d i l)"
    and hit: "CheckCrc (flip_bit_at d i k)"
  shows "b \<le> k \<Longrightarrow>
         repair_loop d q i b = (True, flip_bit_at d i k, q\<lparr>nRepaired := nRepaired q + 1\<rparr>)"
proof (induction "k - b" arbitrary: b)
  case 0
  then have "b = k" by simp
  then show ?case
    using assms(2,4) hit by (subst repair_loop.simps) (simp add: Let_def)
next
  case (Suc n)
  then have b: "b < k" by simp
  have undo: "flip_bit_at (flip_bit_at d i b) i b = d"
    using assms by (intro flip_bit_at_twice) simp_all
  have "repair_loop d q i b = repair_loop d q i (b + 1)"
    using assms(2,4) b miss [OF b] by (subst repair_loop.simps) (simp add: Let_def undo)
  also have "\<dots> = (True, flip_bit_at d i k, q\<lparr>nRepaired := nRepaired q + 1\<rparr>)"
    using Suc.hyps b by (intro Suc.hyps(1)) simp_all
  finally show ?case .
qed

lemma repair_loop_finds:
  assumes "i < size' d" "size' d \<le> int (length (bytes d))" "k < 8"
    and miss: "\<And>j l. 0 \<le> j \<Longrightarrow> j < size' d \<Longrightarrow> l < 8 \<Longrightarrow> (j, l) \<noteq> (i, k)
                 \<Longrightarrow> \<not> CheckCrc (flip_bit_at d j l)"
    and hit: "CheckCrc (flip_bit_at d i k)"
  shows "0 \<le> a \<Longrightarrow> a \<le> i \<Longrightarrow>
         repair_loop d q a 0 = (True, flip_bit_at d i k, q\<lparr>nRepaired := nRepaired q + 1\<rparr>)"
proof (induction "nat (i - a)" arbitrary: a)
  case 0
  then have e: "a = i" by simp
  show ?case
    unfolding e using assms "0.prems" e by (intro repair_loop_hit_byte) auto
next
  case (Suc n)
  then have a: "a < i" by simp
  have "repair_loop d q a 0 = repair_loop d q (a + 1) 0"
    using assms a Suc.prems by (intro repair_loop_miss_byte) auto
  also have "\<dots> = (True, flip_bit_at d i k, q\<lparr>nRepaired := nRepaired q + 1\<rparr>)"
    using Suc.hyps Suc.prems a by (intro Suc.hyps(1)) simp_all
  finally show ?case .
qed

text \<open>
  C1, as the claim states it, fails at byte 0, which \<^verbatim>\<open>CheckCrc\<close> does not read: after
  a flip of bit 0 of the first byte of a frame with a valid trailer, \<^verbatim>\<open>CheckCrc\<close> still
  returns true, and \<^verbatim>\<open>CheckCrcAndRepair\<close> returns true and leaves the wrong byte in
  the buffer.
\<close>

theorem crc_round_trip_counterexample:
  "valid_crc_trailer (example_desc [0x0E, 0x4D, 0x40, 0x9D, 0x5C] 5 VAN_RX_DONE) \<and>
   CheckCrc (flip_bit_at (example_desc [0x0E, 0x4D, 0x40, 0x9D, 0x5C] 5 VAN_RX_DONE) 0 0) \<and>
   CheckCrcAndRepair
       (flip_bit_at (example_desc [0x0E, 0x4D, 0x40, 0x9D, 0x5C] 5 VAN_RX_DONE) 0 0)
       (example_queue [] 0 0 False)
     = (True, example_desc [0x0F, 0x4D, 0x40, 0x9D, 0x5C] 5 VAN_RX_DONE,
        example_queue [] 0 0 False) \<and>
   example_desc [0x0F, 0x4D, 0x40, 0x9D, 0x5C] 5 VAN_RX_DONE
     \<noteq> example_desc [0x0E, 0x4D, 0x40, 0x9D, 0x5C] 5 VAN_RX_DONE"
  by code_simp

text \<open>
  C1, amended. For every frame buffer of at most 224 bytes (a descriptor holds far less)
  whose trailing two bytes hold the value that \<^verbatim>\<open>Crc\<close> computes, \<^verbatim>\<open>CheckCrc\<close>
  returns true. Flipping one bit of any byte but the first (byte index from 1, any bit
  index) makes \<^verbatim>\<open>CheckCrc\<close> return false, and a call of \<^verbatim>\<open>CheckCrcAndRepair\<close>
  then returns true, leaves the buffer identical to the original and counts one corrupt
  and one repaired packet. A flip in byte 0, which the CRC does not cover, is not seen:
  \<^verbatim>\<open>CheckCrc\<close> still returns true and \<^verbatim>\<open>CheckCrcAndRepair\<close> returns true without
  changing the buffer or the counters. The bound is where the CRC stops telling two wrong
  bits from none: the zero-input register sequence has the period 1785, and a run over
  224 bytes consumes 1784 bits.
\<close>

theorem crc_round_trip:
  assumes "valid_crc_trailer d" and "size' d \<le> 224"
  shows "CheckCrc d \<and>
         (\<forall>i k. 1 \<le> i \<and> i < size' d \<and> k < 8 \<longrightarrow>
            \<not> CheckCrc (flip_bit_at d i k) \<and>
            CheckCrcAndRepair (flip_bit_at d i k) q
              = (True, d, q\<lparr>nCorrupt := nCorrupt q + 1, nRepaired := nRepaired q + 1\<rparr>)) \<and>
         (\<forall>k. CheckCrc (flip_bit_at d 0 k) \<and>
            CheckCrcAndRepair (flip_bit_at d 0 k) q = (True, flip_bit_at d 0 k, q))"
proof -
  have sz: "3 \<le> size' d" "size' d \<le> int (length (bytes d))"
    using assms(1) by (simp_all add: valid_crc_trailer_def)
  have reg: "frame_register d = 0x19B7"
    using assms(1) by (rule valid_trailer_register)
  have ok: "CheckCrc d"
    using sz reg by (simp add: CheckCrc_register)
  have first: "CheckCrc (flip_bit_at d 0 k)" for k
    using sz reg by (simp add: CheckCrc_register frame_register_flip_first)
  have one: "\<not> CheckCrc (flip_bit_at d i k)" if "1 \<le> i" "i < size' d" "k < 8" for i k
    using that sz reg syndrome_nonzero [of "bits_after d i k"]
    by (simp add: CheckCrc_register frame_register_flip xor_eq_self_iff)
  have two: "\<not> CheckCrc (flip_bit_at (flip_bit_at d i k) j l)"
    if "1 \<le> i" "i < size' d" "k < 8" "0 \<le> j" "j < size' d" "l < 8" "(j, l) \<noteq> (i, k)"
    for i k j l
  proof (cases "j = 0")
    case True
    then show ?thesis
      using one [OF that(1-3)] sz
      by (simp add: CheckCrc_register frame_register_flip_first)
  next
    case False
    then have j: "1 \<le> j" using that(4) by simp
    have ne: "syndrome (bits_after d i k) \<noteq> syndrome (bits_after d j l)"
    proof
      assume "syndrome (bits_after d i k) = syndrome (bits_after d j l)"
      then have "bits_after d i k = bits_after d j l"
        using that j assms(2) by (intro syndrome_inj bits_after_bound) simp_all
      then have "i = j \<and> k = l"
        using that j by (intro bits_after_inj) simp_all
      then show False using that(7) by simp
    qed
    have "frame_register (flip_bit_at (flip_bit_at d i k) j l)
          = (0x19B7 XOR syndrome (bits_after d i k)) XOR syndrome (bits_after d j l)"
      using that j sz reg by (simp add: frame_register_flip)
    moreover have "(0x19B7 XOR syndrome (bits_after d i k)) XOR syndrome (bits_after d j l)
                   \<noteq> 0x19B7"
      using ne by (simp add: xor_xor_eq_self_iff)
    ultimately show ?thesis
      using sz by (simp add: CheckCrc_register)
  qed
  have rep: "CheckCrcAndRepair (flip_bit_at d i k) q
              = (True, d, q\<lparr>nCorrupt := nCorrupt q + 1, nRepaired := nRepaired q + 1\<rparr>)"
    if "1 \<le> i" "i < size' d" "k < 8" for i k
  proof -
    let ?d = "flip_bit_at d i k"
    have undo: "flip_bit_at ?d i k = d"
      using that sz by (intro flip_bit_at_twice) simp_all
    have "repair_loop ?d (q\<lparr>nCorrupt := nCorrupt q + 1\<rparr>) 0 0
          = (True, flip_bit_at ?d i k,
             (q\<lparr>nCorrupt := nCorrupt q + 1\<rparr>)
               \<lparr>nRepaired := nRepaired (q\<lparr>nCorrupt := nCorrupt q + 1\<rparr>) + 1\<rparr>)"
      using that sz two [OF that] ok
      by (intro repair_loop_finds) (simp_all add: undo)
    then show ?thesis
      using one [OF that] by (simp add: CheckCrcAndRepair_def undo)
  qed
  show ?thesis
    using ok first one rep by (simp add: CheckCrcAndRepair_def)
qed

theorem crc_round_trip_witness:
  "valid_crc_trailer (example_desc [0x0E, 0x4D, 0x40, 0x9D, 0x5C] 5 VAN_RX_DONE) \<and>
   size' (example_desc [0x0E, 0x4D, 0x40, 0x9D, 0x5C] 5 VAN_RX_DONE) \<le> 224 \<and>
   CheckCrc (example_desc [0x0E, 0x4D, 0x40, 0x9D, 0x5C] 5 VAN_RX_DONE) \<and>
   flip_bit_at (example_desc [0x0E, 0x4D, 0x40, 0x9D, 0x5C] 5 VAN_RX_DONE) 3 5
     = example_desc [0x0E, 0x4D, 0x40, 0xBD, 0x5C] 5 VAN_RX_DONE \<and>
   \<not> CheckCrc (example_desc [0x0E, 0x4D, 0x40, 0xBD, 0x5C] 5 VAN_RX_DONE) \<and>
   CheckCrcAndRepair (example_desc [0x0E, 0x4D, 0x40, 0xBD, 0x5C] 5 VAN_RX_DONE)
       (example_queue [] 0 0 False)
     = (True, example_desc [0x0E, 0x4D, 0x40, 0x9D, 0x5C] 5 VAN_RX_DONE,
        (example_queue [] 0 0 False)\<lparr>nCorrupt := 1, nRepaired := 1\<rparr>)"
proof -
  have v: "valid_crc_trailer (example_desc [0x0E, 0x4D, 0x40, 0x9D, 0x5C] 5 VAN_RX_DONE)"
    by code_simp
  have s: "size' (example_desc [0x0E, 0x4D, 0x40, 0x9D, 0x5C] 5 VAN_RX_DONE) \<le> 224"
    by (simp add: example_desc_def)
  have f: "flip_bit_at (example_desc [0x0E, 0x4D, 0x40, 0x9D, 0x5C] 5 VAN_RX_DONE) 3 5
           = example_desc [0x0E, 0x4D, 0x40, 0xBD, 0x5C] 5 VAN_RX_DONE"
    by (simp add: flip_bit_at_def example_desc_def)
  note t = crc_round_trip [OF v s, of "example_queue [] 0 0 False"]
  have c: "CheckCrc (example_desc [0x0E, 0x4D, 0x40, 0x9D, 0x5C] 5 VAN_RX_DONE)"
    using t by (rule conjunct1)
  have r: "\<not> CheckCrc (example_desc [0x0E, 0x4D, 0x40, 0xBD, 0x5C] 5 VAN_RX_DONE) \<and>
     CheckCrcAndRepair (example_desc [0x0E, 0x4D, 0x40, 0xBD, 0x5C] 5 VAN_RX_DONE)
         (example_queue [] 0 0 False)
       = (True, example_desc [0x0E, 0x4D, 0x40, 0x9D, 0x5C] 5 VAN_RX_DONE,
          (example_queue [] 0 0 False)\<lparr>nCorrupt := 1, nRepaired := 1\<rparr>)"
    using t [THEN conjunct2, THEN conjunct1, rule_format, of 3 5]
    by (simp add: f) (simp add: example_desc_def example_queue_def)
  show ?thesis
    using v s c f r by simp
qed

end
